theory Spec2Isabelle
  imports Complex_Main "HOL-Library.Multiset"
begin

section \<open>Data model (types.ts)\<close>

text \<open>
  JavaScript numbers are modelled as reals: the rounding of IEEE doubles is not
  modelled, and the places where the source would produce an infinity or a NaN
  (division by zero, square root of a negative number) are written out explicitly
  in the variate generators below. Identifiers and array indices are naturals;
  server counts are integers, since \<open>new Array(n)\<close> distinguishes negative lengths.
\<close>

datatype CustomerType = WALK_IN | RESERVED

datatype ServiceType = HIGH_COUNTER | LOW_COUNTER

datatype Sentiment = HAPPY | NEUTRAL | ANGRY

record Customer =
  cid :: nat
  ctype :: CustomerType
  serviceType :: ServiceType
  arrivalTime :: real
  serviceStartTime :: "real option"
  serviceEndTime :: "real option"
  tellerId :: "nat option"
  waitTime :: real
  serviceTime :: real
  sentiment :: Sentiment

record CounterConfig =
  count_c :: int
  serviceMin :: real
  serviceMode :: real
  serviceMax :: real

record SimulationConfig =
  durationMinutes :: real
  arrivalRatePerHour :: real
  percentReserved :: real
  percentHighCounterTasks :: real
  highCounter :: CounterConfig
  lowCounter :: CounterConfig

datatype EventType = EV_ARRIVAL | SERVICE_START | SERVICE_END

record SimulationEvent =
  ev_time :: real
  ev_type :: EventType
  ev_customerId :: nat
  details :: "string option"

text \<open>
  The result of a run. The metrics block of the source's result is a reduction of
  \<open>customers\<close> that no other operation reads; it is not part of this development.
\<close>

record SimulationResult =
  customers :: "Customer list"
  events :: "SimulationEvent list"
  config :: SimulationConfig

record Snapshot =
  snap_time :: real
  customersInQueueHigh :: "Customer list"
  customersInQueueLow :: "Customer list"
  customersAtTellerHigh :: "Customer option list"
  customersAtTellerLow :: "Customer option list"
  finishedCount :: nat

text \<open>
  What a call can end in besides a value. \<open>RangeError\<close> and \<open>TypeError\<close> are the
  exceptions the source can raise (\<open>new Array\<close> on an invalid length, a property
  access on \<open>undefined\<close>). The other two mark where this embedding stops following
  the source: \<open>NonFiniteNumber\<close> where the source goes on computing with an IEEE
  infinity or NaN, \<open>OutOfRandomness\<close> where the finite supply of \<open>Math.random()\<close>
  values given to the model is used up.
\<close>

datatype error = RangeError | TypeError | NonFiniteNumber | OutOfRandomness

section \<open>Built-ins of the language\<close>

text \<open>
  \<open>Array.prototype.sort(cmp)\<close>, step by step as the V8 engine sorts an array of fewer
  than 64 elements (\<open>ArrayTimSortImpl\<close> with a single run): \<open>CountAndMakeRun\<close> finds the
  run that starts the array and reverses it when it descends, then
  \<open>BinaryInsertionSort\<close> places every later element in turn, asking the comparator
  \<open>cmp(new, old) < 0\<close> at the middle of the remaining range. The comparator of the
  event loop answers a near tie by the kind of its first argument alone, so the
  order of near-tied events depends on which element is asked about which; these
  definitions ask exactly the comparisons of the engine. For an array of 64 elements
  or more the engine cuts the array into several such runs and merges them; the
  merge is not modelled and every array is sorted as one run. The
  properties below that depend on the order are proved for comparators whose
  answers are all true of one transitive relation (\<open>answers_for\<close>), and every comparison
  sort returns a sorted list for those; the other properties use only that the
  result is a permutation of the array.
\<close>

text \<open>
  \<open>run_length cmp desc prev xs\<close>: how many elements of \<open>xs\<close> continue the run whose last
  element is \<open>prev\<close>. A descending run is strictly descending, an ascending run ends
  at the first element that compares below its predecessor.
\<close>

fun run_length :: "('a \<Rightarrow> 'a \<Rightarrow> real) \<Rightarrow> bool \<Rightarrow> 'a \<Rightarrow> 'a list \<Rightarrow> nat" where
  "run_length cmp desc prev [] = 0"
| "run_length cmp desc prev (x # xs) =
     (if (if desc then cmp x prev \<ge> 0 else cmp x prev < 0) then 0
      else Suc (run_length cmp desc x xs))"

text \<open>\<open>CountAndMakeRun\<close>: the first run, put in ascending order, and the rest of the array.\<close>

definition countAndMakeRun :: "('a \<Rightarrow> 'a \<Rightarrow> real) \<Rightarrow> 'a list \<Rightarrow> 'a list \<times> 'a list" where
  "countAndMakeRun cmp xs =
     (case xs of
        x # y # rest \<Rightarrow>
          (let desc = cmp y x < 0;
               n = 2 + run_length cmp desc y rest
           in (if desc then rev (take n xs) else take n xs, drop n xs))
      | _ \<Rightarrow> (xs, []))"

text \<open>
  The search of \<open>BinaryInsertionSort\<close> for the place of \<open>pivot\<close> among \<open>ys\<close>, between
  \<open>left\<close> and \<open>right\<close>.
\<close>

function binarySearch :: "('a \<Rightarrow> 'a \<Rightarrow> real) \<Rightarrow> 'a \<Rightarrow> 'a list \<Rightarrow> nat \<Rightarrow> nat \<Rightarrow> nat" where
  "binarySearch cmp pivot ys left right =
     (if left < right then
        (let mid = left + (right - left) div 2
         in if cmp pivot (ys ! mid) < 0 then binarySearch cmp pivot ys left mid
            else binarySearch cmp pivot ys (mid + 1) right)
      else left)"
  by pat_completeness auto

termination
  by (relation "measure (\<lambda>(cmp, pivot, ys, left, right). right - left)") auto

declare binarySearch.simps [simp del]

definition binaryInsert :: "('a \<Rightarrow> 'a \<Rightarrow> real) \<Rightarrow> 'a list \<Rightarrow> 'a \<Rightarrow> 'a list" where
  "binaryInsert cmp ys pivot =
     (let left = binarySearch cmp pivot ys 0 (length ys)
      in take left ys @ pivot # drop left ys)"

definition js_sort :: "('a \<Rightarrow> 'a \<Rightarrow> real) \<Rightarrow> 'a list \<Rightarrow> 'a list" where
  "js_sort cmp xs =
     (case countAndMakeRun cmp xs of (front, rest) \<Rightarrow> foldl (binaryInsert cmp) front rest)"

text \<open>\<open>Array.prototype.findIndex\<close>, with \<open>None\<close> for \<open>-1\<close>.\<close>

fun findIndex :: "('a \<Rightarrow> bool) \<Rightarrow> 'a list \<Rightarrow> nat option" where
  "findIndex P [] = None"
| "findIndex P (x # xs) =
     (if P x then Some 0 else map_option Suc (findIndex P xs))"

text \<open>
  \<open>new Array(n).fill(v)\<close>: a length that is not an unsigned 32-bit integer raises
  \<open>RangeError\<close>.
\<close>

definition newArray :: "int \<Rightarrow> 'a \<Rightarrow> error + 'a list" where
  "newArray n v = (if 0 \<le> n \<and> n < 2 ^ 32 then Inr (replicate (nat n) v) else Inl RangeError)"

text \<open>Decimal rendering of a number inside a template string.\<close>

fun string_of_nat :: "nat \<Rightarrow> string" where
  "string_of_nat n =
     (if n < 10 then [''0123456789'' ! n]
      else string_of_nat (n div 10) @ [''0123456789'' ! (n mod 10)])"

declare string_of_nat.simps [simp del]

section \<open>The per-line queue engine (simulateQueue, assignService)\<close>

text \<open>
  The internal events of \<open>simulateQueue\<close>. The source builds only two shapes of
  \<open>QueueEvent\<close>: an arrival carrying a customer id and a teller-free event carrying
  a teller index.
\<close>

datatype QueueEvent =
    is_ARRIVAL: ARRIVAL (time: real) (customerId: nat)
  | is_TELLER_FREE: TELLER_FREE (time: real) (tellerIndex: nat)

text \<open>
  Customer objects are shared between \<open>this.customers\<close>, \<open>queueCustomers\<close> and the
  waiting buffer and are mutated in place, so the state holds them in a store
  (\<open>heap\<close>) and the other structures hold references, which are positions in the
  store. \<open>log_events\<close> is \<open>this.events\<close>.
\<close>

record qstate =
  pq :: "QueueEvent list"
  waitingBuffer :: "nat list"
  tellersFreeAt :: "real list"
  heap :: "Customer list"
  log_events :: "SimulationEvent list"

text \<open>The comparator of the sort inside the loop (lines 143-148).\<close>

definition cmpEvents :: "QueueEvent \<Rightarrow> QueueEvent \<Rightarrow> real" where
  "cmpEvents a b =
     (if \<bar>time a - time b\<bar> < 0.0001
      then (if is_TELLER_FREE a then - 1 else 1)
      else time a - time b)"

text \<open>
  \<open>assignService\<close>: \<open>r\<close> is the reference of the customer. The teller index is
  always a position of \<open>tellersFreeAt\<close> (see \<open>teller_index_in_range\<close>), so the write never
  extends the array.
\<close>

definition assignService :: "nat \<Rightarrow> nat \<Rightarrow> real \<Rightarrow> qstate \<Rightarrow> qstate" where
  "assignService r tellerIdx startTime s =
     (let c = heap s ! r;
          endTime = startTime + serviceTime c;
          wait = startTime - arrivalTime c;
          c' = c\<lparr>serviceStartTime := Some startTime,
                 serviceEndTime := Some endTime,
                 waitTime := wait,
                 tellerId := Some tellerIdx,
                 sentiment := (if wait > 15 then ANGRY
                               else if wait > 5 then NEUTRAL else HAPPY)\<rparr>
      in s\<lparr>heap := (heap s)[r := c'],
            tellersFreeAt := (tellersFreeAt s)[tellerIdx := endTime],
            log_events := log_events s @
              [\<lparr>ev_time = startTime, ev_type = SERVICE_START, ev_customerId = cid c,
                details = Some (''Teller '' @ string_of_nat (tellerIdx + 1))\<rparr>,
               \<lparr>ev_time = endTime, ev_type = SERVICE_END, ev_customerId = cid c,
                details = None\<rparr>],
            pq := pq s @ [TELLER_FREE endTime tellerIdx]\<rparr>)"

text \<open>
  \<open>popNextCustomer\<close>: the first reserved customer of the buffer if there is one,
  else the first customer; the result is the customer and the buffer without it.
\<close>

definition popNextCustomer :: "Customer list \<Rightarrow> nat list \<Rightarrow> (nat \<times> nat list) option" where
  "popNextCustomer h wb =
     (if wb = [] then None
      else case findIndex (\<lambda>r. ctype (h ! r) = RESERVED) wb of
             Some i \<Rightarrow> Some (wb ! i, take i wb @ drop (Suc i) wb)
           | None \<Rightarrow> Some (hd wb, tl wb))"

text \<open>
  One iteration of the loop (lines 142-186): sort the pending events, take the
  first, branch on its kind. \<open>qc\<close> is \<open>queueCustomers\<close>. A lookup of the customer id
  that finds nothing gives \<open>undefined\<close>, on which the assignment (or, for a customer
  sent to the buffer, its later dequeue) faults; \<open>simulateQueue_returns\<close> shows that
  no lookup fails. An empty \<open>pq\<close> is excluded by the loop condition.
\<close>

definition step :: "nat list \<Rightarrow> qstate \<Rightarrow> error + qstate" where
  "step qc s =
     (case js_sort cmpEvents (pq s) of
        [] \<Rightarrow> Inl TypeError
      | ev # rest \<Rightarrow>
          (case ev of
             ARRIVAL currentTime k \<Rightarrow>
               (case find (\<lambda>r. cid (heap s ! r) = k) qc of
                  None \<Rightarrow> Inl TypeError
                | Some r \<Rightarrow>
                    (case findIndex (\<lambda>f. f \<le> currentTime) (tellersFreeAt s) of
                       Some bestTellerIdx \<Rightarrow>
                         Inr (assignService r bestTellerIdx currentTime (s\<lparr>pq := rest\<rparr>))
                     | None \<Rightarrow>
                         Inr (s\<lparr>pq := rest, waitingBuffer := waitingBuffer s @ [r]\<rparr>)))
           | TELLER_FREE currentTime tellerIdx \<Rightarrow>
               (case popNextCustomer (heap s) (waitingBuffer s) of
                  None \<Rightarrow> Inr (s\<lparr>pq := rest\<rparr>)
                | Some (r, wb) \<Rightarrow>
                    Inr (assignService r tellerIdx currentTime
                          (s\<lparr>pq := rest, waitingBuffer := wb\<rparr>)))))"

text \<open>
  The potential that every iteration lowers by one: an arrival counts twice (it is
  consumed and may leave a waiting customer or a teller-free event behind).
\<close>

definition potential :: "qstate \<Rightarrow> nat" where
  "potential s =
     2 * length (filter is_ARRIVAL (pq s)) + length (waitingBuffer s)
       + length (filter is_TELLER_FREE (pq s))"

lemma mset_countAndMakeRun:
  "countAndMakeRun cmp xs = (front, rest) \<Longrightarrow> mset front + mset rest = mset xs"
proof -
  assume a: "countAndMakeRun cmp xs = (front, rest)"
  have td: "mset (take n xs) + mset (drop n xs) = mset xs" for n
    by (metis append_take_drop_id mset_append)
  show ?thesis
  proof (cases xs)
    case Nil with a show ?thesis by (simp add: countAndMakeRun_def)
  next
    case (Cons x xs')
    show ?thesis
    proof (cases xs')
      case Nil with Cons a show ?thesis by (simp add: countAndMakeRun_def)
    next
      case (Cons y rest')
      with \<open>xs = x # xs'\<close> a obtain n where
        "front = (if cmp y x < 0 then rev (take n xs) else take n xs)" "rest = drop n xs"
        by (auto simp: countAndMakeRun_def Let_def)
      then show ?thesis using td [of n] by simp
    qed
  qed
qed

lemma mset_binaryInsert: "mset (binaryInsert cmp ys p) = add_mset p (mset ys)"
proof -
  have "mset (take n ys) + mset (drop n ys) = mset ys" for n
    by (metis append_take_drop_id mset_append)
  then show ?thesis by (simp add: binaryInsert_def Let_def)
qed

lemma mset_foldl_binaryInsert: "mset (foldl (binaryInsert cmp) front rest) = mset front + mset rest"
  by (induction rest arbitrary: front) (simp_all add: mset_binaryInsert)

lemma mset_js_sort: "mset (js_sort cmp xs) = mset xs"
proof -
  obtain front rest where cr: "countAndMakeRun cmp xs = (front, rest)" by (cases "countAndMakeRun cmp xs")
  then show ?thesis using mset_countAndMakeRun [OF cr] by (simp add: js_sort_def mset_foldl_binaryInsert)
qed

lemma set_js_sort: "set (js_sort cmp xs) = set xs"
  using mset_js_sort [of cmp xs] by (metis set_mset_mset)

lemma length_js_sort: "length (js_sort cmp xs) = length xs"
  using mset_js_sort [of cmp xs] by (metis size_mset)

lemma filter_length_js_sort:
  "length (filter P (js_sort cmp xs)) = length (filter P xs)"
proof -
  have "mset (filter P (js_sort cmp xs)) = mset (filter P xs)"
    by (simp add: mset_js_sort)
  then show ?thesis by (metis size_mset)
qed

lemma js_sort_Nil_iff: "js_sort cmp xs = [] \<longleftrightarrow> xs = []"
  using length_js_sort [of cmp xs] by (metis length_0_conv)

lemma popNextCustomer_length:
  "popNextCustomer h wb = Some (r, wb') \<Longrightarrow> Suc (length wb') = length wb"
proof -
  assume a: "popNextCustomer h wb = Some (r, wb')"
  have ne: "wb \<noteq> []" using a by (auto simp: popNextCustomer_def)
  have idx: "\<And>P i. findIndex P wb = Some i \<Longrightarrow> i < length wb"
  proof -
    fix P i show "findIndex P wb = Some i \<Longrightarrow> i < length wb"
      by (induction wb arbitrary: i) (auto split: if_splits)
  qed
  show ?thesis
  proof (cases "findIndex (\<lambda>r. ctype (h ! r) = RESERVED) wb")
    case None
    with a ne have "wb' = tl wb" by (simp add: popNextCustomer_def)
    with ne show ?thesis by (cases wb) auto
  next
    case (Some i)
    with a ne have "wb' = take i wb @ drop (Suc i) wb" by (simp add: popNextCustomer_def)
    with idx [OF Some] show ?thesis by auto
  qed
qed

lemma step_potential:
  assumes "step qc s = Inr s'"
  shows "Suc (potential s') = potential s"
proof -
  obtain ev rest where sorted: "js_sort cmpEvents (pq s) = ev # rest"
    using assms by (auto simp: step_def split: list.splits)
  have cntA: "length (filter is_ARRIVAL (pq s)) = length (filter is_ARRIVAL (ev # rest))"
    using filter_length_js_sort [of is_ARRIVAL cmpEvents "pq s"] sorted by simp
  have cntT: "length (filter is_TELLER_FREE (pq s)) = length (filter is_TELLER_FREE (ev # rest))"
    using filter_length_js_sort [of is_TELLER_FREE cmpEvents "pq s"] sorted by simp
  show ?thesis
  proof (cases ev)
    case (ARRIVAL t k)
    with assms sorted cntA cntT show ?thesis
      by (auto simp: step_def potential_def assignService_def Let_def
               split: option.splits)
  next
    case (TELLER_FREE t i)
    with assms sorted cntA cntT show ?thesis
      by (auto simp: step_def potential_def assignService_def Let_def
               split: option.splits dest: popNextCustomer_length)
  qed
qed

text \<open>The loop \<open>while (pq.length > 0)\<close>.\<close>

function simulateQueue_loop :: "nat list \<Rightarrow> qstate \<Rightarrow> error + qstate" where
  "simulateQueue_loop qc s =
     (if pq s = [] then Inr s
      else case step qc s of
             Inl e \<Rightarrow> Inl e
           | Inr s' \<Rightarrow> simulateQueue_loop qc s')"
  by pat_completeness auto
termination
proof (relation "measure (\<lambda>(qc, s). potential s)")
  show "wf (measure (\<lambda>(qc, s). potential s))" by simp
next
  fix qc s s'
  assume "pq s \<noteq> []" and "step qc s = Inr s'"
  then show "((qc, s'), (qc, s)) \<in> measure (\<lambda>(qc, s). potential s)"
    using step_potential [of qc s s'] by simp
qed

declare simulateQueue_loop.simps [simp del]

text \<open>
  The states at the head of the loop, in order: the run of the loop as a sequence,
  for the properties that speak about the whole run.
\<close>

function loop_states :: "nat list \<Rightarrow> qstate \<Rightarrow> qstate list" where
  "loop_states qc s =
     (if pq s = [] then [s]
      else case step qc s of
             Inl e \<Rightarrow> [s]
           | Inr s' \<Rightarrow> s # loop_states qc s')"
  by pat_completeness auto
termination
proof (relation "measure (\<lambda>(qc, s). potential s)")
  show "wf (measure (\<lambda>(qc, s). potential s))" by simp
next
  fix qc s s'
  assume "pq s \<noteq> []" and "step qc s = Inr s'"
  then show "((qc, s'), (qc, s)) \<in> measure (\<lambda>(qc, s). potential s)"
    using step_potential [of qc s s'] by simp
qed

declare loop_states.simps [simp del]

text \<open>
  \<open>simulateQueue\<close>: one arrival event per customer of the line, sorted by time, an
  empty waiting buffer, then the loop.
\<close>

definition initialQueue :: "nat list \<Rightarrow> real list \<Rightarrow> Customer list \<Rightarrow> SimulationEvent list \<Rightarrow> qstate" where
  "initialQueue qc tellers h evs =
     \<lparr>pq = js_sort (\<lambda>a b. time a - time b)
             (map (\<lambda>r. ARRIVAL (arrivalTime (h ! r)) (cid (h ! r))) qc),
      waitingBuffer = [],
      tellersFreeAt = tellers,
      heap = h,
      log_events = evs\<rparr>"

definition simulateQueue :: "nat list \<Rightarrow> real list \<Rightarrow> Customer list \<Rightarrow> SimulationEvent list \<Rightarrow> error + qstate" where
  "simulateQueue qc tellers h evs = simulateQueue_loop qc (initialQueue qc tellers h evs)"

section \<open>Variate generators (utils/math)\<close>

text \<open>
  The value of a floating-point expression that may leave the finite numbers.
\<close>

datatype jsnum = Num real | PosInf | NegInf | NaN

text \<open>
  Division of finite numbers. A zero divisor is taken to be \<open>+0\<close>, the zero that a
  literal or a parsed input gives.
\<close>

definition js_div :: "real \<Rightarrow> real \<Rightarrow> jsnum" where
  "js_div a b =
     (if b \<noteq> 0 then Num (a / b)
      else if a = 0 then NaN else if a > 0 then PosInf else NegInf)"

text \<open>
  \<open>randomExponential\<close>, with the value \<open>u\<close> of its \<open>Math.random()\<close> call as first
  argument. \<open>Math.random()\<close> is in \<open>[0, 1)\<close>; outside that range the logarithm is
  \<open>-Infinity\<close> (at \<open>u = 1\<close>) or NaN.
\<close>

definition randomExponential :: "real \<Rightarrow> real \<Rightarrow> jsnum" where
  "randomExponential u lambda =
     (if 1 - u < 0 then NaN
      else if 1 - u = 0 then (if lambda < 0 then NegInf else PosInf)
      else js_div (- ln (1 - u)) lambda)"

text \<open>\<open>Math.sqrt\<close>, with \<open>None\<close> for NaN.\<close>

definition js_sqrt :: "real \<Rightarrow> real option" where
  "js_sqrt x = (if x < 0 then None else Some (sqrt x))"

text \<open>\<open>u < F\<close> where \<open>F\<close> may be infinite or NaN.\<close>

fun js_less :: "real \<Rightarrow> jsnum \<Rightarrow> bool" where
  "js_less u (Num f) = (u < f)"
| "js_less u PosInf = True"
| "js_less u NegInf = False"
| "js_less u NaN = False"

text \<open>
  \<open>randomTriangular(min, max, mode)\<close>, with the value \<open>u\<close> of its \<open>Math.random()\<close>
  call as first argument; \<open>None\<close> is NaN.
\<close>

definition randomTriangular :: "real \<Rightarrow> real \<Rightarrow> real \<Rightarrow> real \<Rightarrow> real option" where
  "randomTriangular u min_v max_v mode =
     (let F = js_div (mode - min_v) (max_v - min_v) in
      if js_less u F
      then map_option (\<lambda>r. min_v + r) (js_sqrt (u * (max_v - min_v) * (mode - min_v)))
      else map_option (\<lambda>r. max_v - r) (js_sqrt ((1 - u) * (max_v - min_v) * (max_v - mode))))"

section \<open>The simulator (BankSimulator)\<close>

text \<open>
  \<open>generateArrivals\<close>. The list is the sequence of values that the successive calls
  of \<open>Math.random()\<close> return; an iteration that creates a customer reads four of
  them (gap, class, line, service duration), the last iteration reads one.
\<close>

fun generateArrivals_loop ::
  "SimulationConfig \<Rightarrow> real list \<Rightarrow> real \<Rightarrow> nat \<Rightarrow> Customer list \<Rightarrow> SimulationEvent list
     \<Rightarrow> error + (Customer list \<times> SimulationEvent list)" where
  "generateArrivals_loop cfg [] t idCounter cs evs =
     (if t < durationMinutes cfg then Inl OutOfRandomness else Inr (cs, evs))"
| "generateArrivals_loop cfg (u # us) t idCounter cs evs =
     (if \<not> t < durationMinutes cfg then Inr (cs, evs)
      else case randomExponential u (arrivalRatePerHour cfg / 60) of
             NaN \<Rightarrow> Inl NonFiniteNumber
           | NegInf \<Rightarrow> Inl NonFiniteNumber
           | PosInf \<Rightarrow> Inr (cs, evs)
           | Num interArrival \<Rightarrow>
               (if t + interArrival > durationMinutes cfg then Inr (cs, evs)
                else case us of
                  uR # uH # uT # rest \<Rightarrow>
                    (let isReserved = (uR * 100 < percentReserved cfg);
                         isHighCounter = (uH * 100 < percentHighCounterTasks cfg);
                         line = (if isHighCounter then highCounter cfg else lowCounter cfg)
                     in case randomTriangular uT (serviceMin line) (serviceMax line)
                               (serviceMode line) of
                          None \<Rightarrow> Inl NonFiniteNumber
                        | Some serviceDuration \<Rightarrow>
                            generateArrivals_loop cfg rest (t + interArrival) (idCounter + 1)
                              (cs @ [\<lparr>cid = idCounter,
                                      ctype = (if isReserved then RESERVED else WALK_IN),
                                      serviceType = (if isHighCounter then HIGH_COUNTER
                                                     else LOW_COUNTER),
                                      arrivalTime = t + interArrival,
                                      serviceStartTime = None,
                                      serviceEndTime = None,
                                      tellerId = None,
                                      waitTime = 0,
                                      serviceTime = serviceDuration,
                                      sentiment = HAPPY\<rparr>])
                              (evs @ [\<lparr>ev_time = t + interArrival, ev_type = EV_ARRIVAL,
                                       ev_customerId = idCounter, details = None\<rparr>]))
                | _ \<Rightarrow> Inl OutOfRandomness))"

definition generateArrivals ::
  "SimulationConfig \<Rightarrow> real list \<Rightarrow> error + (Customer list \<times> SimulationEvent list)" where
  "generateArrivals cfg us = generateArrivals_loop cfg us 0 1 [] []"

text \<open>The references of the customers of one line, in the order of the store.\<close>

definition lineRefs :: "ServiceType \<Rightarrow> Customer list \<Rightarrow> nat list" where
  "lineRefs st h = filter (\<lambda>i. serviceType (h ! i) = st) [0..<length h]"

text \<open>
  \<open>processEvents\<close>: the two free-at arrays, the customers sorted by arrival time,
  one run of the engine per line on the shared customers and event log, the log
  sorted by time.
\<close>

definition processEvents ::
  "SimulationConfig \<Rightarrow> Customer list \<Rightarrow> SimulationEvent list
     \<Rightarrow> error + (Customer list \<times> SimulationEvent list)" where
  "processEvents cfg cs evs =
     (case newArray (count_c (highCounter cfg)) (0::real) of
        Inl e \<Rightarrow> Inl e
      | Inr highTellersFreeAt \<Rightarrow>
     (case newArray (count_c (lowCounter cfg)) (0::real) of
        Inl e \<Rightarrow> Inl e
      | Inr lowTellersFreeAt \<Rightarrow>
     (let h = js_sort (\<lambda>a b. arrivalTime a - arrivalTime b) cs in
      case simulateQueue (lineRefs HIGH_COUNTER h) highTellersFreeAt h evs of
        Inl e \<Rightarrow> Inl e
      | Inr s1 \<Rightarrow>
     (case simulateQueue (lineRefs LOW_COUNTER (heap s1)) lowTellersFreeAt
             (heap s1) (log_events s1) of
        Inl e \<Rightarrow> Inl e
      | Inr s2 \<Rightarrow>
          Inr (heap s2, js_sort (\<lambda>a b. ev_time a - ev_time b) (log_events s2))))))"

text \<open>\<open>run\<close>: reset, generate, process, and the result (without its metrics).\<close>

definition run :: "SimulationConfig \<Rightarrow> real list \<Rightarrow> error + SimulationResult" where
  "run cfg us =
     (case generateArrivals cfg us of
        Inl e \<Rightarrow> Inl e
      | Inr (cs, evs) \<Rightarrow>
          (case processEvents cfg cs evs of
             Inl e \<Rightarrow> Inl e
           | Inr (cs', evs') \<Rightarrow> Inr \<lparr>customers = cs', events = evs', config = cfg\<rparr>))"

text \<open>The finished customers, as \<open>calculateMetrics\<close> selects them (line 238).\<close>

definition finished :: "Customer list \<Rightarrow> Customer list" where
  "finished cs = filter (\<lambda>c. serviceEndTime c \<noteq> None) cs"

section \<open>The snapshot projector (getSnapshotAtTime)\<close>

definition inQueue :: "ServiceType \<Rightarrow> real \<Rightarrow> Customer list \<Rightarrow> Customer list" where
  "inQueue st t cs =
     js_sort (\<lambda>a b. arrivalTime a - arrivalTime b)
       (filter (\<lambda>c. serviceType c = st \<and> arrivalTime c \<le> t \<and>
                     (case serviceStartTime c of None \<Rightarrow> True | Some b \<Rightarrow> b > t)) cs)"

text \<open>The body of the \<open>forEach\<close> (lines 331-343) on the two teller arrays.\<close>

definition placeAtTeller ::
  "real \<Rightarrow> Customer option list \<times> Customer option list \<Rightarrow> Customer
     \<Rightarrow> Customer option list \<times> Customer option list" where
  "placeAtTeller t arrays c =
     (case arrays of (atTellerHigh, atTellerLow) \<Rightarrow>
       (case serviceStartTime c of
          None \<Rightarrow> arrays
        | Some b \<Rightarrow>
            if b \<le> t \<and> (case serviceEndTime c of None \<Rightarrow> True | Some e \<Rightarrow> e > t)
            then (if serviceType c = HIGH_COUNTER
                  then (case tellerId c of
                          None \<Rightarrow> arrays
                        | Some i \<Rightarrow> if i < length atTellerHigh
                                    then (atTellerHigh[i := Some c], atTellerLow)
                                    else arrays)
                  else (case tellerId c of
                          None \<Rightarrow> arrays
                        | Some i \<Rightarrow> if i < length atTellerLow
                                    then (atTellerHigh, atTellerLow[i := Some c])
                                    else arrays))
            else arrays))"

definition getSnapshotAtTime :: "SimulationResult \<Rightarrow> real \<Rightarrow> error + Snapshot" where
  "getSnapshotAtTime result t =
     (let cs = customers result;
          inQueueHigh = inQueue HIGH_COUNTER t cs;
          inQueueLow = inQueue LOW_COUNTER t cs
      in case newArray (count_c (highCounter (config result))) None of
           Inl e \<Rightarrow> Inl e
         | Inr atTellerHigh0 \<Rightarrow>
        (case newArray (count_c (lowCounter (config result))) None of
           Inl e \<Rightarrow> Inl e
         | Inr atTellerLow0 \<Rightarrow>
             (case foldl (placeAtTeller t) (atTellerHigh0, atTellerLow0) cs of
                (atTellerHigh, atTellerLow) \<Rightarrow>
                  Inr \<lparr>snap_time = t,
                       customersInQueueHigh = inQueueHigh,
                       customersInQueueLow = inQueueLow,
                       customersAtTellerHigh = atTellerHigh,
                       customersAtTellerLow = atTellerLow,
                       finishedCount =
                         length (filter (\<lambda>c. case serviceEndTime c of
                                                 None \<Rightarrow> False | Some e \<Rightarrow> e \<le> t) cs)\<rparr>)))"

section \<open>An example run\<close>

text \<open>
  A five-minute horizon, twelve arrivals per hour, the counters of the
  application's initial configuration. The random values make one walk-in customer
  for the low counter arrive at time 0 with the minimal service duration 10; the
  next gap, \<open>5 ln 10\<close>, passes the horizon.
\<close>

definition example_config :: SimulationConfig where
  "example_config =
     \<lparr>durationMinutes = 5, arrivalRatePerHour = 12,
      percentReserved = 20, percentHighCounterTasks = 60,
      highCounter = \<lparr>count_c = 3, serviceMin = 2, serviceMode = 4, serviceMax = 8\<rparr>,
      lowCounter = \<lparr>count_c = 2, serviceMin = 10, serviceMode = 15, serviceMax = 25\<rparr>\<rparr>"

definition example_draws :: "real list" where
  "example_draws = [0, 1 / 2, 7 / 10, 0, 9 / 10]"

definition example_created :: Customer where
  "example_created =
     \<lparr>cid = 1, ctype = WALK_IN, serviceType = LOW_COUNTER, arrivalTime = 0,
      serviceStartTime = None, serviceEndTime = None, tellerId = None,
      waitTime = 0, serviceTime = 10, sentiment = HAPPY\<rparr>"

definition example_arrival_log :: "SimulationEvent list" where
  "example_arrival_log =
     [\<lparr>ev_time = 0, ev_type = EV_ARRIVAL, ev_customerId = 1, details = None\<rparr>]"

definition example_result :: SimulationResult where
  "example_result =
     \<lparr>customers =
        [example_created\<lparr>serviceStartTime := Some 0, serviceEndTime := Some 10,
                          tellerId := Some 0\<rparr>],
      events =
        [\<lparr>ev_time = 0, ev_type = EV_ARRIVAL, ev_customerId = 1, details = None\<rparr>,
         \<lparr>ev_time = 0, ev_type = SERVICE_START, ev_customerId = 1,
          details = Some ''Teller 1''\<rparr>,
         \<lparr>ev_time = 10, ev_type = SERVICE_END, ev_customerId = 1, details = None\<rparr>],
      config = example_config\<rparr>"

lemma ln_10_gt_1: "ln (10::real) > 1"
proof -
  have "exp (1::real) \<le> 3" by (rule exp_le)
  then have "exp (1::real) < 10" by simp
  then have "ln (exp (1::real)) < ln 10" by (subst ln_less_cancel_iff) simp_all
  then show ?thesis by simp
qed

lemma example_generateArrivals:
  "generateArrivals example_config example_draws = Inr ([example_created], example_arrival_log)"
  using ln_10_gt_1
  by (simp add: generateArrivals_def example_config_def example_draws_def
        randomExponential_def js_div_def randomTriangular_def js_sqrt_def
        example_created_def example_arrival_log_def ln_div)

lemma example_processEvents:
  "processEvents example_config [example_created] example_arrival_log =
     Inr (customers example_result, events example_result)"
  by code_simp

lemma example_run: "run example_config example_draws = Inr example_result"
  by (simp add: run_def example_generateArrivals example_processEvents example_result_def)

section \<open>Properties of the snapshot projector\<close>

text \<open>
  An entry of a teller array is a customer of the population whose recorded
  teller is that position and whose line is the array's.
\<close>

definition placed_ok :: "ServiceType \<Rightarrow> Customer set \<Rightarrow> Customer option list \<Rightarrow> bool" where
  "placed_ok st S arr =
     (\<forall>i c. i < length arr \<and> arr ! i = Some c \<longrightarrow>
        c \<in> S \<and> tellerId c = Some i \<and> serviceType c = st)"

lemma placed_ok_update:
  "placed_ok st S arr \<Longrightarrow> c \<in> S \<Longrightarrow> tellerId c = Some i \<Longrightarrow> serviceType c = st
     \<Longrightarrow> placed_ok st S (arr[i := Some c])"
  unfolding placed_ok_def
  by (metis length_list_update nth_list_update_eq nth_list_update_neq option.inject)

lemma placed_ok_mono: "placed_ok st S arr \<Longrightarrow> S \<subseteq> S' \<Longrightarrow> placed_ok st S' arr"
  by (auto simp: placed_ok_def)

lemma placeAtTeller_step:
  assumes "placeAtTeller t (hi, lo) c = (hi', lo')"
    and "placed_ok HIGH_COUNTER S hi" and "placed_ok LOW_COUNTER S lo"
  shows "length hi' = length hi \<and> length lo' = length lo \<and>
         placed_ok HIGH_COUNTER (insert c S) hi' \<and> placed_ok LOW_COUNTER (insert c S) lo'"
proof -
  have h: "placed_ok HIGH_COUNTER (insert c S) hi" "placed_ok LOW_COUNTER (insert c S) lo"
    using assms(2,3) by (auto intro: placed_ok_mono)
  have low: "serviceType c \<noteq> HIGH_COUNTER \<Longrightarrow> serviceType c = LOW_COUNTER"
    by (cases "serviceType c") auto
  show ?thesis
  proof (cases "placeAtTeller t (hi, lo) c = (hi, lo)")
    case True
    with assms(1) h show ?thesis by simp
  next
    case False
    then obtain i where i: "tellerId c = Some i"
      by (auto simp: placeAtTeller_def split: option.splits if_splits)
    show ?thesis
    proof (cases "serviceType c = HIGH_COUNTER")
      case True
      with False assms(1) i have "hi' = hi[i := Some c]" "lo' = lo"
        by (auto simp: placeAtTeller_def split: option.splits if_splits)
      with h True i show ?thesis
        by (auto intro: placed_ok_update)
    next
      case F2: False
      with False assms(1) i have "hi' = hi" "lo' = lo[i := Some c]"
        by (auto simp: placeAtTeller_def split: option.splits if_splits)
      with h low [OF F2] i show ?thesis
        by (auto intro: placed_ok_update)
    qed
  qed
qed

lemma foldl_placeAtTeller:
  assumes "foldl (placeAtTeller t) (hi, lo) cs = (hi', lo')"
    and "placed_ok HIGH_COUNTER S hi" and "placed_ok LOW_COUNTER S lo"
  shows "length hi' = length hi \<and> length lo' = length lo \<and>
         placed_ok HIGH_COUNTER (S \<union> set cs) hi' \<and> placed_ok LOW_COUNTER (S \<union> set cs) lo'"
  using assms
proof (induction cs arbitrary: hi lo S)
  case Nil
  then show ?case by simp
next
  case (Cons c cs)
  obtain hi1 lo1 where st: "placeAtTeller t (hi, lo) c = (hi1, lo1)"
    by (cases "placeAtTeller t (hi, lo) c") auto
  from placeAtTeller_step [OF st Cons.prems(2,3)]
  have s1: "length hi1 = length hi" "length lo1 = length lo"
    "placed_ok HIGH_COUNTER (insert c S) hi1" "placed_ok LOW_COUNTER (insert c S) lo1"
    by auto
  from Cons.prems(1) st have "foldl (placeAtTeller t) (hi1, lo1) cs = (hi', lo')" by simp
  from Cons.IH [OF this s1(3,4)] s1(1,2) show ?case by simp
qed

lemma placed_ok_replicate: "placed_ok st S (replicate n None)"
  by (auto simp: placed_ok_def)

lemma inQueue_waiting:
  "c \<in> set (inQueue st t cs) \<Longrightarrow>
     c \<in> set cs \<and> serviceType c = st \<and> arrivalTime c \<le> t \<and>
     (serviceStartTime c = None \<or> (\<exists>b. serviceStartTime c = Some b \<and> t < b))"
  by (auto simp: inQueue_def set_js_sort split: option.splits)

lemma newArray_Inr: "newArray n v = Inr xs \<Longrightarrow> xs = replicate (nat n) v \<and> 0 \<le> n \<and> n < 2 ^ 32"
  by (auto simp: newArray_def split: if_splits)

lemma run_Inr:
  assumes "run cfg us = Inr result"
  shows "\<exists>cs evs cs' evs'. generateArrivals cfg us = Inr (cs, evs) \<and>
           processEvents cfg cs evs = Inr (cs', evs') \<and>
           result = \<lparr>customers = cs', events = evs', config = cfg\<rparr>"
proof (cases "generateArrivals cfg us")
  case (Inl e)
  with assms show ?thesis by (simp add: run_def)
next
  case (Inr g)
  obtain cs evs where g: "g = (cs, evs)" by (cases g)
  show ?thesis
  proof (cases "processEvents cfg cs evs")
    case (Inl e)
    with assms Inr g show ?thesis by (simp add: run_def)
  next
    case p: (Inr out)
    obtain cs' evs' where "out = (cs', evs')" by (cases out)
    with assms Inr g p show ?thesis by (simp add: run_def)
  qed
qed

lemma getSnapshotAtTime_Inr:
  assumes "getSnapshotAtTime result t = Inr snap"
  shows "\<exists>hi lo. foldl (placeAtTeller t)
            (replicate (nat (count_c (highCounter (config result)))) None,
             replicate (nat (count_c (lowCounter (config result)))) None)
            (customers result) = (hi, lo) \<and>
          snap = \<lparr>snap_time = t,
            customersInQueueHigh = inQueue HIGH_COUNTER t (customers result),
            customersInQueueLow = inQueue LOW_COUNTER t (customers result),
            customersAtTellerHigh = hi, customersAtTellerLow = lo,
            finishedCount = length (filter (\<lambda>c. case serviceEndTime c of
                                 None \<Rightarrow> False | Some e \<Rightarrow> e \<le> t) (customers result))\<rparr>"
proof -
  let ?nh = "count_c (highCounter (config result))"
  let ?nl = "count_c (lowCounter (config result))"
  obtain a where a: "newArray ?nh (None :: Customer option) = Inr a"
    using assms by (cases "newArray ?nh (None :: Customer option)")
      (simp_all add: getSnapshotAtTime_def Let_def)
  obtain b where b: "newArray ?nl (None :: Customer option) = Inr b"
    using assms a by (cases "newArray ?nl (None :: Customer option)")
      (simp_all add: getSnapshotAtTime_def Let_def)
  obtain hi lo where f: "foldl (placeAtTeller t) (a, b) (customers result) = (hi, lo)"
    by (cases "foldl (placeAtTeller t) (a, b) (customers result)") auto
  have ab: "a = replicate (nat ?nh) None" "b = replicate (nat ?nl) None"
    using newArray_Inr [OF a] newArray_Inr [OF b] by simp_all
  from assms have "snap = \<lparr>snap_time = t,
            customersInQueueHigh = inQueue HIGH_COUNTER t (customers result),
            customersInQueueLow = inQueue LOW_COUNTER t (customers result),
            customersAtTellerHigh = hi, customersAtTellerLow = lo,
            finishedCount = length (filter (\<lambda>c. case serviceEndTime c of
                                 None \<Rightarrow> False | Some e \<Rightarrow> e \<le> t) (customers result))\<rparr>"
    by (simp add: getSnapshotAtTime_def Let_def a b f)
  with f ab show ?thesis by blast
qed

lemma getSnapshotAtTime_total:
  assumes "0 \<le> count_c (highCounter (config result))" "count_c (highCounter (config result)) < 2 ^ 32"
    "0 \<le> count_c (lowCounter (config result))" "count_c (lowCounter (config result)) < 2 ^ 32"
  shows "\<exists>snap. getSnapshotAtTime result t = Inr snap"
proof -
  obtain hi lo where f: "foldl (placeAtTeller t)
            (replicate (nat (count_c (highCounter (config result)))) None,
             replicate (nat (count_c (lowCounter (config result)))) None)
            (customers result) = (hi, lo)"
    using prod.exhaust by blast
  show ?thesis
    using assms by (simp add: getSnapshotAtTime_def Let_def newArray_def f)
qed

text \<open>
  C10, as amended. For every simulation result whose two server counts are valid
  array lengths (integers from 0 to \<open>2^32 - 1\<close>) and every time \<open>t\<close>, whatever its sign
  or size, \<open>getSnapshotAtTime\<close> returns a snapshot. Each teller array has as many
  entries as its line has servers; a customer stands in a teller array only at the
  position that its teller id names, in the array of its line, so a customer
  without teller id or with one beyond the array stands in neither array; and
  every customer listed as waiting is one of the population, has arrived by \<open>t\<close> and
  either has no start time or starts after \<open>t\<close>.
\<close>

theorem getSnapshotAtTime_shape:
  assumes "0 \<le> count_c (highCounter (config result))"
    and "count_c (highCounter (config result)) < 2 ^ 32"
    and "0 \<le> count_c (lowCounter (config result))"
    and "count_c (lowCounter (config result)) < 2 ^ 32"
  shows "\<exists>snap. getSnapshotAtTime result t = Inr snap \<and>
     length (customersAtTellerHigh snap) = nat (count_c (highCounter (config result))) \<and>
     length (customersAtTellerLow snap) = nat (count_c (lowCounter (config result))) \<and>
     (\<forall>i c. i < length (customersAtTellerHigh snap) \<and> customersAtTellerHigh snap ! i = Some c
        \<longrightarrow> c \<in> set (customers result) \<and> tellerId c = Some i \<and> serviceType c = HIGH_COUNTER) \<and>
     (\<forall>i c. i < length (customersAtTellerLow snap) \<and> customersAtTellerLow snap ! i = Some c
        \<longrightarrow> c \<in> set (customers result) \<and> tellerId c = Some i \<and> serviceType c = LOW_COUNTER) \<and>
     (\<forall>c. tellerId c = None \<or>
            (\<exists>i. tellerId c = Some i \<and>
               (if serviceType c = HIGH_COUNTER then length (customersAtTellerHigh snap)
                else length (customersAtTellerLow snap)) \<le> i)
        \<longrightarrow> Some c \<notin> set (customersAtTellerHigh snap) \<and>
            Some c \<notin> set (customersAtTellerLow snap)) \<and>
     (\<forall>c \<in> set (customersInQueueHigh snap) \<union> set (customersInQueueLow snap).
        c \<in> set (customers result) \<and> arrivalTime c \<le> t \<and>
        (serviceStartTime c = None \<or> (\<exists>b. serviceStartTime c = Some b \<and> t < b)))"
proof -
  let ?cs = "customers result"
  from assms have "\<exists>snap. getSnapshotAtTime result t = Inr snap"
    by (rule getSnapshotAtTime_total)
  then obtain snap where snap: "getSnapshotAtTime result t = Inr snap" ..
  from getSnapshotAtTime_Inr [OF snap] obtain hi lo where
    f: "foldl (placeAtTeller t)
            (replicate (nat (count_c (highCounter (config result)))) None,
             replicate (nat (count_c (lowCounter (config result)))) None) ?cs = (hi, lo)"
    and hi: "customersAtTellerHigh snap = hi" and lo: "customersAtTellerLow snap = lo"
    and qh: "customersInQueueHigh snap = inQueue HIGH_COUNTER t ?cs"
    and ql: "customersInQueueLow snap = inQueue LOW_COUNTER t ?cs"
    by auto
  from foldl_placeAtTeller [OF f placed_ok_replicate placed_ok_replicate, of "{}"]
  have len: "length hi = nat (count_c (highCounter (config result)))"
            "length lo = nat (count_c (lowCounter (config result)))"
    and ok: "placed_ok HIGH_COUNTER (set ?cs) hi" "placed_ok LOW_COUNTER (set ?cs) lo"
    by simp_all
  have q: "\<forall>c \<in> set (customersInQueueHigh snap) \<union> set (customersInQueueLow snap).
        c \<in> set ?cs \<and> arrivalTime c \<le> t \<and>
        (serviceStartTime c = None \<or> (\<exists>b. serviceStartTime c = Some b \<and> t < b))"
  proof
    fix c assume "c \<in> set (customersInQueueHigh snap) \<union> set (customersInQueueLow snap)"
    then have "c \<in> set (inQueue HIGH_COUNTER t ?cs) \<or> c \<in> set (inQueue LOW_COUNTER t ?cs)"
      by (simp add: qh ql)
    then show "c \<in> set ?cs \<and> arrivalTime c \<le> t \<and>
        (serviceStartTime c = None \<or> (\<exists>b. serviceStartTime c = Some b \<and> t < b))"
      using inQueue_waiting [of c HIGH_COUNTER t ?cs] inQueue_waiting [of c LOW_COUNTER t ?cs]
      by blast
  qed
  have a: "\<forall>i c. i < length (customersAtTellerHigh snap) \<and> customersAtTellerHigh snap ! i = Some c
        \<longrightarrow> c \<in> set ?cs \<and> tellerId c = Some i \<and> serviceType c = HIGH_COUNTER"
    using ok(1) unfolding placed_ok_def hi by blast
  have b: "\<forall>i c. i < length (customersAtTellerLow snap) \<and> customersAtTellerLow snap ! i = Some c
        \<longrightarrow> c \<in> set ?cs \<and> tellerId c = Some i \<and> serviceType c = LOW_COUNTER"
    using ok(2) unfolding placed_ok_def lo by blast
  have d: "Some c \<notin> set (customersAtTellerHigh snap) \<and> Some c \<notin> set (customersAtTellerLow snap)"
    if c: "tellerId c = None \<or>
            (\<exists>i. tellerId c = Some i \<and>
               (if serviceType c = HIGH_COUNTER then length (customersAtTellerHigh snap)
                else length (customersAtTellerLow snap)) \<le> i)" for c
  proof -
    have "False" if "Some c \<in> set (customersAtTellerHigh snap)"
    proof -
      from that obtain i where "i < length (customersAtTellerHigh snap)"
        "customersAtTellerHigh snap ! i = Some c" by (auto simp: in_set_conv_nth)
      with a have "tellerId c = Some i" "serviceType c = HIGH_COUNTER" by blast+
      with c \<open>i < length (customersAtTellerHigh snap)\<close> show False by auto
    qed
    moreover have "False" if "Some c \<in> set (customersAtTellerLow snap)"
    proof -
      from that obtain i where "i < length (customersAtTellerLow snap)"
        "customersAtTellerLow snap ! i = Some c" by (auto simp: in_set_conv_nth)
      with b have "tellerId c = Some i" "serviceType c = LOW_COUNTER" by blast+
      with c \<open>i < length (customersAtTellerLow snap)\<close> show False by auto
    qed
    ultimately show ?thesis by blast
  qed
  from snap len hi lo a b d q show ?thesis by blast
qed

text \<open>
  A result that no run returns: four customers in service from 0 to 10, the first
  with a teller id beyond the three servers of the high counter, the second without
  teller id, the fourth with a teller id beyond the two servers of the low counter.
\<close>

definition serving :: "nat \<Rightarrow> ServiceType \<Rightarrow> nat option \<Rightarrow> Customer" where
  "serving k st tid =
     \<lparr>cid = k, ctype = WALK_IN, serviceType = st, arrivalTime = 0,
      serviceStartTime = Some 0, serviceEndTime = Some 10, tellerId = tid,
      waitTime = 0, serviceTime = 10, sentiment = HAPPY\<rparr>"

definition stray_result :: SimulationResult where
  "stray_result =
     \<lparr>customers = [serving 1 HIGH_COUNTER (Some 7), serving 2 LOW_COUNTER None,
                   serving 3 HIGH_COUNTER (Some 1), serving 4 LOW_COUNTER (Some 2)],
      events = [], config = example_config\<rparr>"

theorem getSnapshotAtTime_shape_witness:
  "0 \<le> count_c (highCounter (config stray_result)) \<and>
   count_c (highCounter (config stray_result)) < 2 ^ 32 \<and>
   0 \<le> count_c (lowCounter (config stray_result)) \<and>
   count_c (lowCounter (config stray_result)) < 2 ^ 32 \<and>
   (\<exists>snap. getSnapshotAtTime stray_result 5 = Inr snap \<and>
      length (customersAtTellerHigh snap) = 3 \<and> length (customersAtTellerLow snap) = 2 \<and>
      Some (serving 1 HIGH_COUNTER (Some 7)) \<notin> set (customersAtTellerHigh snap) \<and>
      Some (serving 2 LOW_COUNTER None) \<notin> set (customersAtTellerLow snap)) \<and>
   map_sum id (\<lambda>snap. (customersAtTellerHigh snap, customersAtTellerLow snap))
     (getSnapshotAtTime stray_result 5) =
     Inr ([None, Some (serving 3 HIGH_COUNTER (Some 1)), None], [None, None]) \<and>
   map_sum id (\<lambda>snap. (customersAtTellerHigh snap, customersInQueueHigh snap, finishedCount snap))
     (getSnapshotAtTime stray_result (- 1)) = Inr ([None, None, None], [], 0)"
proof -
  have c: "0 \<le> count_c (highCounter (config stray_result))"
    "count_c (highCounter (config stray_result)) < 2 ^ 32"
    "0 \<le> count_c (lowCounter (config stray_result))"
    "count_c (lowCounter (config stray_result)) < 2 ^ 32"
    by (simp_all add: stray_result_def example_config_def)
  from getSnapshotAtTime_shape [OF c, of 5] obtain snap where
    snap: "getSnapshotAtTime stray_result 5 = Inr snap"
    and len: "length (customersAtTellerHigh snap) = nat (count_c (highCounter (config stray_result)))"
       "length (customersAtTellerLow snap) = nat (count_c (lowCounter (config stray_result)))"
    and drop: "\<forall>c. tellerId c = None \<or>
            (\<exists>i. tellerId c = Some i \<and>
               (if serviceType c = HIGH_COUNTER then length (customersAtTellerHigh snap)
                else length (customersAtTellerLow snap)) \<le> i)
        \<longrightarrow> Some c \<notin> set (customersAtTellerHigh snap) \<and>
            Some c \<notin> set (customersAtTellerLow snap)"
    by blast
  have l: "length (customersAtTellerHigh snap) = 3" "length (customersAtTellerLow snap) = 2"
    using len by (simp_all add: stray_result_def example_config_def)
  have d1: "Some (serving 1 HIGH_COUNTER (Some 7)) \<notin> set (customersAtTellerHigh snap)"
    using drop [rule_format, of "serving 1 HIGH_COUNTER (Some 7)"] l by (simp add: serving_def)
  have d2: "Some (serving 2 LOW_COUNTER None) \<notin> set (customersAtTellerLow snap)"
    using drop [rule_format, of "serving 2 LOW_COUNTER None"] by (simp add: serving_def)
  have e1: "map_sum id (\<lambda>snap. (customersAtTellerHigh snap, customersAtTellerLow snap))
     (getSnapshotAtTime stray_result 5) =
     Inr ([None, Some (serving 3 HIGH_COUNTER (Some 1)), None], [None, None])"
    by code_simp
  have e2: "map_sum id (\<lambda>snap. (customersAtTellerHigh snap, customersInQueueHigh snap, finishedCount snap))
     (getSnapshotAtTime stray_result (- 1)) = Inr ([None, None, None], [], 0)"
    by code_simp
  have ex: "\<exists>snap. getSnapshotAtTime stray_result 5 = Inr snap \<and>
      length (customersAtTellerHigh snap) = 3 \<and> length (customersAtTellerLow snap) = 2 \<and>
      Some (serving 1 HIGH_COUNTER (Some 7)) \<notin> set (customersAtTellerHigh snap) \<and>
      Some (serving 2 LOW_COUNTER None) \<notin> set (customersAtTellerLow snap)"
    by (rule exI [of _ snap]) (intro conjI snap l d1 d2)
  show ?thesis by (intro conjI c ex e1 e2)
qed

text \<open>
  The claim as stated fails for a result whose configuration names a server count
  that is no array length: \<open>new Array(-1)\<close> raises \<open>RangeError\<close> and no snapshot is
  returned.
\<close>

definition negative_count_result :: SimulationResult where
  "negative_count_result =
     \<lparr>customers = [], events = [],
      config = example_config\<lparr>highCounter := (highCounter example_config)\<lparr>count_c := - 1\<rparr>\<rparr>\<rparr>"

theorem invalid_count_counterexample:
  "getSnapshotAtTime negative_count_result 0 = Inl RangeError"
  by code_simp

lemma finishedCount_eq:
  assumes "getSnapshotAtTime result t = Inr snap"
  shows "finishedCount snap =
     length (filter (\<lambda>c. \<exists>e. serviceEndTime c = Some e \<and> e \<le> t) (customers result))"
proof -
  have eq: "(\<lambda>c. case serviceEndTime c of None \<Rightarrow> False | Some e \<Rightarrow> e \<le> t)
          = (\<lambda>c. \<exists>e. serviceEndTime c = Some e \<and> e \<le> t)"
    by (auto split: option.splits)
  from getSnapshotAtTime_Inr [OF assms] show ?thesis
    unfolding eq by auto
qed


text \<open>
  C9, as amended. The finished count of a snapshot at \<open>t\<close> is the number of customers
  whose end time is set and at most \<open>t\<close>. It is 0 when \<open>t\<close> is before every end time, and
  it is the number of all finished customers when \<open>t\<close> has reached every end time;
  the horizon is not such a time, since a customer who arrives before the horizon
  may end after it.
\<close>

theorem finishedCount_counts_ended:
  assumes "getSnapshotAtTime result t = Inr snap"
  shows "finishedCount snap =
           length (filter (\<lambda>c. \<exists>e. serviceEndTime c = Some e \<and> e \<le> t) (customers result)) \<and>
         ((\<forall>c \<in> set (customers result). \<forall>e. serviceEndTime c = Some e \<longrightarrow> t < e)
            \<longrightarrow> finishedCount snap = 0) \<and>
         ((\<forall>c \<in> set (customers result). \<forall>e. serviceEndTime c = Some e \<longrightarrow> e \<le> t)
            \<longrightarrow> finishedCount snap = length (finished (customers result)))"
proof -
  let ?cs = "customers result"
  note eq = finishedCount_eq [OF assms]
  have none: "finishedCount snap = 0"
    if "\<forall>c \<in> set ?cs. \<forall>e. serviceEndTime c = Some e \<longrightarrow> t < e"
  proof -
    from that have "filter (\<lambda>c. \<exists>e. serviceEndTime c = Some e \<and> e \<le> t) ?cs = []"
      by (auto simp: filter_empty_conv)
    with eq show ?thesis by simp
  qed
  have all: "finishedCount snap = length (finished ?cs)"
    if "\<forall>c \<in> set ?cs. \<forall>e. serviceEndTime c = Some e \<longrightarrow> e \<le> t"
  proof -
    from that have "filter (\<lambda>c. \<exists>e. serviceEndTime c = Some e \<and> e \<le> t) ?cs = finished ?cs"
      unfolding finished_def by (intro filter_cong) auto
    with eq show ?thesis by simp
  qed
  from eq none all show ?thesis by blast
qed

theorem finishedCount_counts_ended_witness:
  "(\<exists>snap. getSnapshotAtTime example_result 0 = Inr snap \<and> finishedCount snap = 0) \<and>
   (\<exists>snap. getSnapshotAtTime example_result 10 = Inr snap \<and>
      finishedCount snap = length (finished (customers example_result)) \<and>
      finishedCount snap = 1)"
proof -
  have ends: "map serviceEndTime (customers example_result) = [Some 10]"
    by (simp add: example_result_def example_created_def)
  have valid: "0 \<le> count_c (highCounter (config example_result))"
    "count_c (highCounter (config example_result)) < 2 ^ 32"
    "0 \<le> count_c (lowCounter (config example_result))"
    "count_c (lowCounter (config example_result)) < 2 ^ 32"
    by (simp_all add: example_result_def example_config_def)
  obtain s0 where s0: "getSnapshotAtTime example_result 0 = Inr s0"
    using getSnapshotAtTime_total [OF valid] by blast
  obtain s1 where s1: "getSnapshotAtTime example_result 10 = Inr s1"
    using getSnapshotAtTime_total [OF valid] by blast
  have before: "\<forall>c \<in> set (customers example_result). \<forall>e. serviceEndTime c = Some e \<longrightarrow> 0 < e"
    by (simp add: example_result_def example_created_def)
  have after: "\<forall>c \<in> set (customers example_result). \<forall>e. serviceEndTime c = Some e \<longrightarrow> e \<le> 10"
    by (simp add: example_result_def example_created_def)
  have n: "length (finished (customers example_result)) = 1"
    by (simp add: finished_def example_result_def example_created_def)
  from finishedCount_counts_ended [OF s0] before have "finishedCount s0 = 0" by blast
  moreover from finishedCount_counts_ended [OF s1] after
  have "finishedCount s1 = length (finished (customers example_result))" by blast
  ultimately show ?thesis using s0 s1 n by auto
qed

text \<open>
  The claim as stated fails at the horizon of the example run: the only customer
  arrives at 0 and is served until 10, past the horizon 5, so the snapshot at the
  horizon counts nobody while one customer is finished.
\<close>

theorem finishedCount_at_horizon_counterexample:
  "run example_config example_draws = Inr example_result \<and>
   map_sum id finishedCount
     (getSnapshotAtTime example_result (durationMinutes example_config)) = Inr 0 \<and>
   length (finished (customers example_result)) = 1"
proof -
  have "map_sum id finishedCount
          (getSnapshotAtTime example_result (durationMinutes example_config)) = Inr 0"
    by code_simp
  moreover have "length (finished (customers example_result)) = 1"
    by code_simp
  ultimately show ?thesis using example_run by simp
qed

section \<open>One iteration of the engine\<close>

subsection \<open>Arrival events\<close>

lemma findIndex_Some:
  "findIndex P xs = Some i \<longleftrightarrow> i < length xs \<and> P (xs ! i) \<and> (\<forall>j<i. \<not> P (xs ! j))"
proof (induction xs arbitrary: i)
  case Nil
  then show ?case by simp
next
  case (Cons x xs)
  show ?case
  proof (cases "P x")
    case True
    then show ?thesis by (cases i) auto
  next
    case False
    show ?thesis
    proof (cases i)
      case 0
      with False show ?thesis by auto
    next
      case (Suc n)
      have "(\<forall>j<Suc n. \<not> P ((x # xs) ! j)) \<longleftrightarrow> (\<forall>j<n. \<not> P (xs ! j))"
        using False by (auto simp: less_Suc_eq_0_disj)
      with False Suc Cons.IH [of n] show ?thesis by auto
    qed
  qed
qed

lemma findIndex_None: "findIndex P xs = None \<longleftrightarrow> (\<forall>x \<in> set xs. \<not> P x)"
  by (induction xs) auto

text \<open>
  C5. An iteration whose event is the arrival of customer \<open>r\<close> at time \<open>t\<close>: if some
  server has free-at \<open>\<le> t\<close>, the customer is assigned to the server of least index
  among them (every server before it is busy, whatever their free-at times), and
  otherwise the customer is appended to the waiting buffer.
\<close>

theorem arrival_first_fit:
  assumes "js_sort cmpEvents (pq s) = ARRIVAL t k # rest"
    and "find (\<lambda>r. cid (heap s ! r) = k) qc = Some r"
  shows "((\<exists>i<length (tellersFreeAt s). tellersFreeAt s ! i \<le> t) \<longrightarrow>
            (\<exists>i<length (tellersFreeAt s). tellersFreeAt s ! i \<le> t \<and>
               (\<forall>j<i. \<not> tellersFreeAt s ! j \<le> t) \<and>
               step qc s = Inr (assignService r i t (s\<lparr>pq := rest\<rparr>)))) \<and>
         ((\<forall>i<length (tellersFreeAt s). \<not> tellersFreeAt s ! i \<le> t) \<longrightarrow>
            step qc s = Inr (s\<lparr>pq := rest, waitingBuffer := waitingBuffer s @ [r]\<rparr>))"
proof (cases "findIndex (\<lambda>f. f \<le> t) (tellersFreeAt s)")
  case None
  then have no: "\<forall>i<length (tellersFreeAt s). \<not> tellersFreeAt s ! i \<le> t"
    by (simp add: findIndex_None)
  from None assms have "step qc s = Inr (s\<lparr>pq := rest, waitingBuffer := waitingBuffer s @ [r]\<rparr>)"
    by (simp add: step_def)
  with no show ?thesis by blast
next
  case (Some i)
  then have i: "i < length (tellersFreeAt s)" "tellersFreeAt s ! i \<le> t"
    "\<forall>j<i. \<not> tellersFreeAt s ! j \<le> t"
    by (simp_all add: findIndex_Some)
  from Some assms have "step qc s = Inr (assignService r i t (s\<lparr>pq := rest\<rparr>))"
    by (simp add: step_def)
  with i show ?thesis by blast
qed

subsection \<open>Server-free events\<close>

lemma findIndex_split:
  assumes "findIndex P xs = Some i"
  shows "xs = take i xs @ xs ! i # drop (Suc i) xs \<and> P (xs ! i) \<and> (\<forall>x \<in> set (take i xs). \<not> P x)"
proof -
  from assms have i: "i < length xs" "P (xs ! i)" "\<forall>j<i. \<not> P (xs ! j)"
    by (simp_all add: findIndex_Some)
  have "\<forall>x \<in> set (take i xs). \<not> P x"
  proof
    fix x assume "x \<in> set (take i xs)"
    then obtain j where "j < i" "x = xs ! j"
      using i(1) by (auto simp: in_set_conv_nth)
    with i(3) show "\<not> P x" by simp
  qed
  with i show ?thesis by (simp add: id_take_nth_drop [symmetric])
qed

lemma popNextCustomer_Some:
  assumes "popNextCustomer h wb = Some (r, wb')"
  shows "\<exists>pre post. wb = pre @ r # post \<and> wb' = pre @ post \<and>
           (\<forall>x \<in> set pre. ctype (h ! x) \<noteq> ctype (h ! r)) \<and>
           ((\<exists>x \<in> set wb. ctype (h ! x) = RESERVED) \<longrightarrow> ctype (h ! r) = RESERVED)"
proof (cases "findIndex (\<lambda>r. ctype (h ! r) = RESERVED) wb")
  case None
  from assms have ne: "wb \<noteq> []" by (auto simp: popNextCustomer_def)
  with None assms have "r = hd wb" "wb' = tl wb" by (simp_all add: popNextCustomer_def)
  with ne have "wb = [] @ r # wb'" by simp
  moreover from None have "\<not> (\<exists>x \<in> set wb. ctype (h ! x) = RESERVED)"
    by (simp add: findIndex_None)
  ultimately show ?thesis by (metis append_Nil empty_iff list.set(1))
next
  case (Some i)
  from assms have ne: "wb \<noteq> []" by (auto simp: popNextCustomer_def)
  with Some assms have r: "r = wb ! i" and wb': "wb' = take i wb @ drop (Suc i) wb"
    by (simp_all add: popNextCustomer_def)
  from findIndex_split [OF Some] r
  have "wb = take i wb @ r # drop (Suc i) wb" "ctype (h ! r) = RESERVED"
    "\<forall>x \<in> set (take i wb). ctype (h ! x) \<noteq> RESERVED"
    by simp_all
  with wb' show ?thesis by metis
qed

lemma popNextCustomer_None: "popNextCustomer h wb = None \<longleftrightarrow> wb = []"
  by (auto simp: popNextCustomer_def split: option.splits)

text \<open>
  C1. An iteration whose event is server \<open>i\<close> becoming free at time \<open>t\<close>: with an empty
  buffer nothing happens; otherwise one customer \<open>r\<close> leaves the buffer, the others
  keep their order, and \<open>r\<close> is assigned to server \<open>i\<close> at \<open>t\<close>. If any reserved customer
  is waiting then \<open>r\<close> is reserved, wherever the walk-in customers stand; and no
  customer of the class of \<open>r\<close> stands before \<open>r\<close> in the buffer, which is in enqueue
  order since arrivals are appended at its end.
\<close>

theorem teller_free_priority:
  assumes "js_sort cmpEvents (pq s) = TELLER_FREE t i # rest"
  shows "(waitingBuffer s = [] \<longrightarrow> step qc s = Inr (s\<lparr>pq := rest\<rparr>)) \<and>
         (waitingBuffer s \<noteq> [] \<longrightarrow>
            (\<exists>pre r post.
               waitingBuffer s = pre @ r # post \<and>
               step qc s = Inr (assignService r i t (s\<lparr>pq := rest, waitingBuffer := pre @ post\<rparr>)) \<and>
               (\<forall>x \<in> set pre. ctype (heap s ! x) \<noteq> ctype (heap s ! r)) \<and>
               ((\<exists>x \<in> set (waitingBuffer s). ctype (heap s ! x) = RESERVED)
                  \<longrightarrow> ctype (heap s ! r) = RESERVED)))"
proof (cases "popNextCustomer (heap s) (waitingBuffer s)")
  case None
  then have "waitingBuffer s = []" by (simp add: popNextCustomer_None)
  moreover from None assms have "step qc s = Inr (s\<lparr>pq := rest\<rparr>)" by (simp add: step_def)
  ultimately show ?thesis by simp
next
  case (Some p)
  obtain r wb' where p: "p = (r, wb')" by (cases p)
  have ne: "waitingBuffer s \<noteq> []"
    using Some popNextCustomer_None [of "heap s" "waitingBuffer s"] by auto
  from Some p assms have st: "step qc s = Inr (assignService r i t (s\<lparr>pq := rest, waitingBuffer := wb'\<rparr>))"
    by (simp add: step_def)
  from popNextCustomer_Some [OF Some [unfolded p]] obtain pre post where
    "waitingBuffer s = pre @ r # post" "wb' = pre @ post"
    "\<forall>x \<in> set pre. ctype (heap s ! x) \<noteq> ctype (heap s ! r)"
    "(\<exists>x \<in> set (waitingBuffer s). ctype (heap s ! x) = RESERVED) \<longrightarrow> ctype (heap s ! r) = RESERVED"
    by blast
  with st ne show ?thesis by blast
qed


section \<open>The order of the pending events\<close>

text \<open>
  A comparator \<open>answers for\<close> a transitive relation on a set when each of its answers
  about two elements of the set is a true statement about the relation.
\<close>

definition answers_for :: "('a \<Rightarrow> 'a \<Rightarrow> real) \<Rightarrow> ('a \<Rightarrow> 'a \<Rightarrow> bool) \<Rightarrow> 'a set \<Rightarrow> bool" where
  "answers_for cmp R S \<longleftrightarrow>
     (\<forall>x \<in> S. \<forall>y \<in> S. (cmp x y < 0 \<longrightarrow> R x y) \<and> (\<not> cmp x y < 0 \<longrightarrow> R y x)) \<and>
     (\<forall>x y z. R x y \<longrightarrow> R y z \<longrightarrow> R x z)"

text \<open>
  A list of events is \<open>separated\<close> when any two of its timestamps are equal or at
  least the comparator's tolerance apart; on such a list the comparator orders by
  \<open>before_eq\<close>: by time, a teller-free event before an arrival of the same time.
\<close>

definition separated :: "QueueEvent list \<Rightarrow> bool" where
  "separated es =
     (\<forall>a \<in> set es. \<forall>b \<in> set es. time a = time b \<or> \<bar>time a - time b\<bar> \<ge> 0.0001)"

definition before_eq :: "QueueEvent \<Rightarrow> QueueEvent \<Rightarrow> bool" where
  "before_eq a b \<longleftrightarrow>
     time a < time b \<or> (time a = time b \<and> (is_TELLER_FREE a \<or> is_ARRIVAL b))"

lemma before_eq_trans: "before_eq a b \<Longrightarrow> before_eq b c \<Longrightarrow> before_eq a c"
  unfolding before_eq_def by (cases a; cases b; cases c) auto

lemma set_countAndMakeRun:
  "countAndMakeRun cmp xs = (front, rest) \<Longrightarrow> set front \<union> set rest = set xs"
  using mset_countAndMakeRun [of cmp xs front rest] by (metis set_mset_mset set_mset_union)

lemma set_binaryInsert: "set (binaryInsert cmp ys p) = insert p (set ys)"
  using mset_binaryInsert [of cmp ys p] by (metis set_mset_add_mset_insert set_mset_mset)

lemma answers_for_mono: "answers_for cmp R S \<Longrightarrow> T \<subseteq> S \<Longrightarrow> answers_for cmp R T"
  unfolding answers_for_def by blast

lemma sorted_wrt_chain:
  assumes "\<forall>x y z. R x y \<longrightarrow> R y z \<longrightarrow> R x z" and "R p x" and "sorted_wrt R (x # xs)"
  shows "sorted_wrt R (p # x # xs)"
  using assms by auto

lemma run_length_asc:
  assumes "answers_for cmp R (insert prev (set xs))"
  shows "sorted_wrt R (prev # take (run_length cmp False prev xs) xs)"
  using assms
proof (induction xs arbitrary: prev)
  case Nil
  then show ?case by simp
next
  case (Cons x xs)
  show ?case
  proof (cases "cmp x prev < 0")
    case True
    then show ?thesis by simp
  next
    case False
    have tr: "\<forall>x y z. R x y \<longrightarrow> R y z \<longrightarrow> R x z" using Cons.prems by (simp add: answers_for_def)
    have "R prev x" using Cons.prems False by (simp add: answers_for_def)
    moreover have "sorted_wrt R (x # take (run_length cmp False x xs) xs)"
      by (rule Cons.IH) (rule answers_for_mono [OF Cons.prems], auto)
    ultimately have "sorted_wrt R (prev # x # take (run_length cmp False x xs) xs)"
      by (rule sorted_wrt_chain [OF tr])
    with False show ?thesis by simp
  qed
qed

lemma run_length_desc:
  assumes "answers_for cmp R (insert prev (set xs))"
  shows "sorted_wrt (\<lambda>a b. R b a) (prev # take (run_length cmp True prev xs) xs)"
  using assms
proof (induction xs arbitrary: prev)
  case Nil
  then show ?case by simp
next
  case (Cons x xs)
  show ?case
  proof (cases "cmp x prev < 0")
    case False
    then show ?thesis by simp
  next
    case True
    have tr: "\<And>x y z. R x y \<Longrightarrow> R y z \<Longrightarrow> R x z"
      using Cons.prems unfolding answers_for_def by blast
    have xp: "R x prev" using Cons.prems True by (simp add: answers_for_def)
    have ih: "sorted_wrt (\<lambda>a b. R b a) (x # take (run_length cmp True x xs) xs)"
      by (rule Cons.IH) (rule answers_for_mono [OF Cons.prems], auto)
    then have "\<forall>z \<in> set (take (run_length cmp True x xs) xs). R z prev"
      using xp tr by auto
    with ih xp have "sorted_wrt (\<lambda>a b. R b a) (prev # x # take (run_length cmp True x xs) xs)"
      by simp
    with True show ?thesis by simp
  qed
qed

lemma sorted_countAndMakeRun:
  assumes "answers_for cmp R (set xs)" and "countAndMakeRun cmp xs = (front, rest)"
  shows "sorted_wrt R front"
proof (cases xs)
  case Nil
  with assms(2) show ?thesis by (simp add: countAndMakeRun_def)
next
  case (Cons x xs')
  show ?thesis
  proof (cases xs')
    case Nil
    with Cons assms(2) show ?thesis by (auto simp: countAndMakeRun_def)
  next
    case (Cons y ys)
    have xs: "xs = x # y # ys" using \<open>xs = x # xs'\<close> Cons by simp
    have tr: "\<forall>x y z. R x y \<longrightarrow> R y z \<longrightarrow> R x z" using assms(1) by (simp add: answers_for_def)
    have ay: "answers_for cmp R (insert y (set ys))"
      by (rule answers_for_mono [OF assms(1)]) (auto simp: xs)
    show ?thesis
    proof (cases "cmp y x < 0")
      case True
      let ?n = "run_length cmp True y ys"
      have fr: "front = rev (x # y # take ?n ys)"
        using assms(2) True by (simp add: countAndMakeRun_def xs)
      have "R y x" using assms(1) True by (simp add: answers_for_def xs)
      moreover have "sorted_wrt (\<lambda>a b. R b a) (y # take ?n ys)" by (rule run_length_desc [OF ay])
      ultimately have "sorted_wrt (\<lambda>a b. R b a) (x # y # take ?n ys)"
        using tr by (auto)
      then show ?thesis unfolding fr by (simp only: sorted_wrt_rev)
    next
      case False
      let ?n = "run_length cmp False y ys"
      have fr: "front = x # y # take ?n ys"
        using assms(2) False by (simp add: countAndMakeRun_def xs)
      have "R x y" using assms(1) False by (simp add: answers_for_def xs)
      moreover have "sorted_wrt R (y # take ?n ys)" by (rule run_length_asc [OF ay])
      ultimately show ?thesis unfolding fr using tr by auto
    qed
  qed
qed

lemma binarySearch_place:
  assumes "answers_for cmp R (insert p (set ys))" and "sorted_wrt R ys"
    and "left \<le> right" and "right \<le> length ys"
    and "\<forall>i<left. R (ys ! i) p"
    and "\<forall>i. right \<le> i \<and> i < length ys \<longrightarrow> R p (ys ! i)"
  shows "binarySearch cmp p ys left right \<le> length ys \<and>
         (\<forall>i<binarySearch cmp p ys left right. R (ys ! i) p) \<and>
         (\<forall>i. binarySearch cmp p ys left right \<le> i \<and> i < length ys \<longrightarrow> R p (ys ! i))"
  using assms
proof (induction cmp p ys left right rule: binarySearch.induct)
  case (1 cmp pivot ys left right)
  have tr: "\<And>x y z. R x y \<Longrightarrow> R y z \<Longrightarrow> R x z" using "1.prems"(1) unfolding answers_for_def by blast
  show ?case
  proof (cases "left < right")
    case False
    with "1.prems" show ?thesis by (simp add: binarySearch.simps)
  next
    case True
    define mid where "mid = left + (right - left) div 2"
    have m: "left \<le> mid" "mid < right" using True by (simp_all add: mid_def)
    then have ml: "mid < length ys" using "1.prems"(4) by simp
    then have mem: "ys ! mid \<in> set ys" by simp
    show ?thesis
    proof (cases "cmp pivot (ys ! mid) < 0")
      case lt: True
      have pm: "R pivot (ys ! mid)" using "1.prems"(1) lt mem by (simp add: answers_for_def)
      have up: "\<forall>i. mid \<le> i \<and> i < length ys \<longrightarrow> R pivot (ys ! i)"
      proof (intro allI impI)
        fix i assume i: "mid \<le> i \<and> i < length ys"
        show "R pivot (ys ! i)"
        proof (cases "i = mid")
          case True with pm show ?thesis by simp
        next
          case False
          with i have "R (ys ! mid) (ys ! i)" using "1.prems"(2) by (simp add: sorted_wrt_iff_nth_less)
          with pm show ?thesis by (rule tr)
        qed
      qed
      have eq: "binarySearch cmp pivot ys left right = binarySearch cmp pivot ys left mid"
        using True lt by (subst binarySearch.simps) (simp add: mid_def Let_def)
      have "binarySearch cmp pivot ys left mid \<le> length ys \<and>
         (\<forall>i<binarySearch cmp pivot ys left mid. R (ys ! i) pivot) \<and>
         (\<forall>i. binarySearch cmp pivot ys left mid \<le> i \<and> i < length ys \<longrightarrow> R pivot (ys ! i))"
        using "1.IH"(1) [OF True mid_def lt "1.prems"(1) "1.prems"(2) m(1) _ "1.prems"(5) up] ml by simp
      then show ?thesis unfolding eq .
    next
      case ge: False
      have mp: "R (ys ! mid) pivot" using "1.prems"(1) ge mem by (simp add: answers_for_def)
      have low: "\<forall>i<mid + 1. R (ys ! i) pivot"
      proof (intro allI impI)
        fix i assume i: "i < mid + 1"
        show "R (ys ! i) pivot"
        proof (cases "i = mid")
          case True with mp show ?thesis by simp
        next
          case False
          with i ml have "R (ys ! i) (ys ! mid)" using "1.prems"(2) by (simp add: sorted_wrt_iff_nth_less)
          then show ?thesis using mp by (rule tr)
        qed
      qed
      have eq: "binarySearch cmp pivot ys left right = binarySearch cmp pivot ys (mid + 1) right"
        using True ge by (subst binarySearch.simps) (simp add: mid_def Let_def)
      have "binarySearch cmp pivot ys (mid + 1) right \<le> length ys \<and>
         (\<forall>i<binarySearch cmp pivot ys (mid + 1) right. R (ys ! i) pivot) \<and>
         (\<forall>i. binarySearch cmp pivot ys (mid + 1) right \<le> i \<and> i < length ys \<longrightarrow> R pivot (ys ! i))"
        using "1.IH"(2) [OF True mid_def ge "1.prems"(1) "1.prems"(2) _ "1.prems"(4) low "1.prems"(6)] m by simp
      then show ?thesis unfolding eq .
    qed
  qed
qed

lemma sorted_binaryInsert:
  assumes "answers_for cmp R (insert p (set ys))" and "sorted_wrt R ys"
  shows "sorted_wrt R (binaryInsert cmp ys p)"
proof -
  let ?k = "binarySearch cmp p ys 0 (length ys)"
  have k: "?k \<le> length ys" "\<forall>i<?k. R (ys ! i) p" "\<forall>i. ?k \<le> i \<and> i < length ys \<longrightarrow> R p (ys ! i)"
  proof -
    have "?k \<le> length ys \<and> (\<forall>i<?k. R (ys ! i) p) \<and>
          (\<forall>i. ?k \<le> i \<and> i < length ys \<longrightarrow> R p (ys ! i))"
      by (rule binarySearch_place [OF assms]) auto
    then show "?k \<le> length ys" "\<forall>i<?k. R (ys ! i) p"
      "\<forall>i. ?k \<le> i \<and> i < length ys \<longrightarrow> R p (ys ! i)" by blast+
  qed
  have a: "\<forall>x \<in> set (take ?k ys). R x p"
    using k(1,2) by (auto simp: in_set_conv_nth)
  have b: "\<forall>y \<in> set (drop ?k ys). R p y"
  proof
    fix y assume "y \<in> set (drop ?k ys)"
    then obtain j where "j < length ys - ?k" "y = ys ! (?k + j)" by (auto simp: in_set_conv_nth)
    then show "R p y" using k(3) by simp
  qed
  have c: "sorted_wrt R (take ?k ys @ drop ?k ys)" using assms(2) by simp
  have d: "sorted_wrt R (take ?k ys)" "sorted_wrt R (drop ?k ys)"
    "\<forall>x \<in> set (take ?k ys). \<forall>y \<in> set (drop ?k ys). R x y"
    using c unfolding sorted_wrt_append by simp_all
  have "sorted_wrt R (take ?k ys @ p # drop ?k ys)"
    unfolding sorted_wrt_append using a b d by simp
  then show ?thesis by (simp add: binaryInsert_def Let_def)
qed

lemma sorted_foldl_binaryInsert:
  assumes "answers_for cmp R (set front \<union> set rest)" and "sorted_wrt R front"
  shows "sorted_wrt R (foldl (binaryInsert cmp) front rest)"
  using assms
proof (induction rest arbitrary: front)
  case Nil
  then show ?case by simp
next
  case (Cons p rest)
  have "sorted_wrt R (binaryInsert cmp front p)"
    by (rule sorted_binaryInsert [OF answers_for_mono [OF Cons.prems(1)] Cons.prems(2)]) auto
  moreover have "answers_for cmp R (set (binaryInsert cmp front p) \<union> set rest)"
    by (rule answers_for_mono [OF Cons.prems(1)]) (auto simp: set_binaryInsert)
  ultimately show ?case using Cons.IH by simp
qed

lemma sorted_js_sort_answers:
  assumes "answers_for cmp R (set xs)"
  shows "sorted_wrt R (js_sort cmp xs)"
proof -
  obtain front rest where cr: "countAndMakeRun cmp xs = (front, rest)" by (cases "countAndMakeRun cmp xs")
  have s: "set front \<union> set rest = set xs" by (rule set_countAndMakeRun [OF cr])
  have "sorted_wrt R (foldl (binaryInsert cmp) front rest)"
    by (rule sorted_foldl_binaryInsert) (simp_all add: s assms sorted_countAndMakeRun [OF assms cr])
  then show ?thesis by (simp add: js_sort_def cr)
qed

lemma cmpEvents_answers:
  assumes "separated es"
  shows "answers_for cmpEvents before_eq (set es)"
proof -
  have "(cmpEvents x y < 0 \<longrightarrow> before_eq x y) \<and> (\<not> cmpEvents x y < 0 \<longrightarrow> before_eq y x)"
    if "x \<in> set es" "y \<in> set es" for x y
  proof -
    from assms that have "time x = time y \<or> \<bar>time x - time y\<bar> \<ge> 0.0001"
      by (simp add: separated_def)
    then show ?thesis unfolding cmpEvents_def before_eq_def
      by (cases x; cases y) (auto split: if_splits)
  qed
  then show ?thesis unfolding answers_for_def using before_eq_trans by blast
qed

lemma sorted_js_sort:
  assumes "separated es"
  shows "sorted_wrt before_eq (js_sort cmpEvents es)"
  by (rule sorted_js_sort_answers [OF cmpEvents_answers [OF assms]])

lemma before_eq_refl: "before_eq a a"
  by (cases a) (auto simp: before_eq_def)

lemma js_sort_head_least:
  assumes "separated es" and "js_sort cmpEvents es = ev # rest"
  shows "\<forall>x \<in> set es. before_eq ev x"
proof -
  from sorted_js_sort [OF assms(1)] assms(2) have "\<forall>x \<in> set rest. before_eq ev x" by simp
  moreover have "set es = insert ev (set rest)"
    using set_js_sort [of cmpEvents es] assms(2) by simp
  ultimately show ?thesis using before_eq_refl by auto
qed



section \<open>The iteration and the event order on concrete states\<close>

text \<open>A customer as \<open>generateArrivals\<close> creates it.\<close>

definition fresh_customer :: "nat \<Rightarrow> CustomerType \<Rightarrow> ServiceType \<Rightarrow> real \<Rightarrow> real \<Rightarrow> Customer" where
  "fresh_customer k ty st arrival duration =
     \<lparr>cid = k, ctype = ty, serviceType = st, arrivalTime = arrival,
      serviceStartTime = None, serviceEndTime = None, tellerId = None,
      waitTime = 0, serviceTime = duration, sentiment = HAPPY\<rparr>"

text \<open>One pending arrival at time 3, with the given free-at times.\<close>

definition arrival_state :: "real list \<Rightarrow> qstate" where
  "arrival_state tellers =
     \<lparr>pq = [ARRIVAL 3 1], waitingBuffer = [], tellersFreeAt = tellers,
      heap = [fresh_customer 1 WALK_IN HIGH_COUNTER 3 4], log_events = []\<rparr>"

theorem arrival_first_fit_witness:
  "js_sort cmpEvents (pq (arrival_state [5, 2, 1])) = [ARRIVAL 3 1] \<and>
   find (\<lambda>r. cid (heap (arrival_state [5, 2, 1]) ! r) = 1) [0] = Some 0 \<and>
   (\<exists>i<length (tellersFreeAt (arrival_state [5, 2, 1])).
      tellersFreeAt (arrival_state [5, 2, 1]) ! i \<le> 3 \<and>
      (\<forall>j<i. \<not> tellersFreeAt (arrival_state [5, 2, 1]) ! j \<le> 3) \<and>
      step [0] (arrival_state [5, 2, 1]) =
        Inr (assignService 0 i 3 (arrival_state [5, 2, 1]\<lparr>pq := []\<rparr>))) \<and>
   map_sum id (\<lambda>s. map tellerId (heap s)) (step [0] (arrival_state [5, 2, 1])) = Inr [Some 1] \<and>
   step [0] (arrival_state [5, 4]) =
     Inr (arrival_state [5, 4]
            \<lparr>pq := [], waitingBuffer := waitingBuffer (arrival_state [5, 4]) @ [0]\<rparr>)"
proof -
  have srt: "js_sort cmpEvents (pq (arrival_state ts)) = ARRIVAL 3 1 # []" for ts
    by (simp add: arrival_state_def js_sort_def countAndMakeRun_def)
  have fnd: "find (\<lambda>r. cid (heap (arrival_state ts) ! r) = 1) [0] = Some 0" for ts
    by (simp add: arrival_state_def fresh_customer_def)
  have some: "\<exists>i<length (tellersFreeAt (arrival_state [5, 2, 1])).
                tellersFreeAt (arrival_state [5, 2, 1]) ! i \<le> 3"
    by (rule exI [of _ 1]) (simp add: arrival_state_def)
  have none: "\<forall>i<length (tellersFreeAt (arrival_state [5, 4])).
                \<not> tellersFreeAt (arrival_state [5, 4]) ! i \<le> 3"
    by (simp add: arrival_state_def less_Suc_eq_0_disj numeral_2_eq_2)
  note a = arrival_first_fit [OF srt fnd, of "[5, 2, 1]", THEN conjunct1, THEN mp, OF some]
  note b = arrival_first_fit [OF srt fnd, of "[5, 4]", THEN conjunct2, THEN mp, OF none]
  have c: "map_sum id (\<lambda>s. map tellerId (heap s)) (step [0] (arrival_state [5, 2, 1])) = Inr [Some 1]"
    by code_simp
  from srt [of "[5, 2, 1]"] fnd [of "[5, 2, 1]"] a b c show ?thesis by blast
qed

text \<open>A walk-in customer waiting in front of two reserved ones.\<close>

definition waiting_state :: qstate where
  "waiting_state =
     \<lparr>pq = [TELLER_FREE 10 0], waitingBuffer = [0, 1, 2], tellersFreeAt = [10],
      heap = [fresh_customer 1 WALK_IN HIGH_COUNTER 1 4,
              fresh_customer 2 RESERVED HIGH_COUNTER 2 4,
              fresh_customer 3 RESERVED HIGH_COUNTER 3 4],
      log_events = []\<rparr>"

theorem teller_free_priority_witness:
  "js_sort cmpEvents (pq waiting_state) = [TELLER_FREE 10 0] \<and>
   waitingBuffer waiting_state \<noteq> [] \<and>
   (\<exists>pre r post.
      waitingBuffer waiting_state = pre @ r # post \<and>
      step [0, 1, 2] waiting_state =
        Inr (assignService r 0 10 (waiting_state\<lparr>pq := [], waitingBuffer := pre @ post\<rparr>)) \<and>
      ctype (heap waiting_state ! r) = RESERVED) \<and>
   map_sum id (\<lambda>s. (waitingBuffer s, map tellerId (heap s))) (step [0, 1, 2] waiting_state) =
     Inr ([0, 2], [None, Some 0, None])"
proof -
  have srt: "js_sort cmpEvents (pq waiting_state) = TELLER_FREE 10 0 # []"
    by (simp add: waiting_state_def js_sort_def countAndMakeRun_def)
  have ne: "waitingBuffer waiting_state \<noteq> []" by (simp add: waiting_state_def)
  have res: "\<exists>x \<in> set (waitingBuffer waiting_state). ctype (heap waiting_state ! x) = RESERVED"
    by (simp add: waiting_state_def fresh_customer_def)
  note th = teller_free_priority [OF srt, of "[0, 1, 2]", THEN conjunct2, THEN mp, OF ne]
  from th res have a: "\<exists>pre r post.
      waitingBuffer waiting_state = pre @ r # post \<and>
      step [0, 1, 2] waiting_state =
        Inr (assignService r 0 10 (waiting_state\<lparr>pq := [], waitingBuffer := pre @ post\<rparr>)) \<and>
      ctype (heap waiting_state ! r) = RESERVED"
    by blast
  have c: "map_sum id (\<lambda>s. (waitingBuffer s, map tellerId (heap s))) (step [0, 1, 2] waiting_state) =
     Inr ([0, 2], [None, Some 0, None])"
    by code_simp
  from srt ne a c show ?thesis by simp
qed

text \<open>Two customers of one line; the first ends 0.00005 after the second arrives.\<close>

definition near_tie_customers :: "Customer list" where
  "near_tie_customers =
     [fresh_customer 1 WALK_IN HIGH_COUNTER 0 (10 + 1 / 20000),
      fresh_customer 2 WALK_IN HIGH_COUNTER 10 3]"




section \<open>The effect of an iteration\<close>

lemma assignService_fields:
  "pq (assignService r i t s) = pq s @ [TELLER_FREE (t + serviceTime (heap s ! r)) i]"
  "waitingBuffer (assignService r i t s) = waitingBuffer s"
  "tellersFreeAt (assignService r i t s) = (tellersFreeAt s)[i := t + serviceTime (heap s ! r)]"
  "length (heap (assignService r i t s)) = length (heap s)"
  by (simp_all add: assignService_def Let_def)

lemma step_Inr_cases:
  assumes "step qc s = Inr s'"
  obtains
    (assign_arrival) t k rest r i where
      "js_sort cmpEvents (pq s) = ARRIVAL t k # rest"
      "find (\<lambda>r. cid (heap s ! r) = k) qc = Some r"
      "findIndex (\<lambda>f. f \<le> t) (tellersFreeAt s) = Some i"
      "s' = assignService r i t (s\<lparr>pq := rest\<rparr>)"
  | (enqueue) t k rest r where
      "js_sort cmpEvents (pq s) = ARRIVAL t k # rest"
      "find (\<lambda>r. cid (heap s ! r) = k) qc = Some r"
      "findIndex (\<lambda>f. f \<le> t) (tellersFreeAt s) = None"
      "s' = s\<lparr>pq := rest, waitingBuffer := waitingBuffer s @ [r]\<rparr>"
  | (idle) t i rest where
      "js_sort cmpEvents (pq s) = TELLER_FREE t i # rest"
      "waitingBuffer s = []"
      "s' = s\<lparr>pq := rest\<rparr>"
  | (assign_waiting) t i rest r wb where
      "js_sort cmpEvents (pq s) = TELLER_FREE t i # rest"
      "popNextCustomer (heap s) (waitingBuffer s) = Some (r, wb)"
      "s' = assignService r i t (s\<lparr>pq := rest, waitingBuffer := wb\<rparr>)"
proof -
  obtain ev rest where srt: "js_sort cmpEvents (pq s) = ev # rest"
    using assms by (cases "js_sort cmpEvents (pq s)") (simp_all add: step_def)
  show thesis
  proof (cases ev)
    case (ARRIVAL t k)
    obtain r where r: "find (\<lambda>r. cid (heap s ! r) = k) qc = Some r"
      using assms srt ARRIVAL by (cases "find (\<lambda>r. cid (heap s ! r) = k) qc") (simp_all add: step_def)
    show thesis
    proof (cases "findIndex (\<lambda>f. f \<le> t) (tellersFreeAt s)")
      case None
      with assms srt ARRIVAL r have "s' = s\<lparr>pq := rest, waitingBuffer := waitingBuffer s @ [r]\<rparr>"
        by (simp add: step_def)
      with srt ARRIVAL r None show thesis by (intro enqueue) simp_all
    next
      case (Some i)
      with assms srt ARRIVAL r have "s' = assignService r i t (s\<lparr>pq := rest\<rparr>)"
        by (simp add: step_def)
      with srt ARRIVAL r Some show thesis by (intro assign_arrival) simp_all
    qed
  next
    case (TELLER_FREE t i)
    show thesis
    proof (cases "popNextCustomer (heap s) (waitingBuffer s)")
      case None
      with assms srt TELLER_FREE have "s' = s\<lparr>pq := rest\<rparr>" by (simp add: step_def)
      moreover from None have "waitingBuffer s = []" by (simp add: popNextCustomer_None)
      ultimately show thesis using srt TELLER_FREE by (intro idle) simp_all
    next
      case (Some p)
      obtain r wb where p: "p = (r, wb)" by (cases p)
      with Some assms srt TELLER_FREE
      have "s' = assignService r i t (s\<lparr>pq := rest, waitingBuffer := wb\<rparr>)"
        by (simp add: step_def)
      with srt TELLER_FREE Some p show thesis by (intro assign_waiting) simp_all
    qed
  qed
qed

section \<open>Termination of the event loop\<close>

text \<open>Every pending arrival names a customer of the line.\<close>

definition inv_ids :: "nat list \<Rightarrow> qstate \<Rightarrow> bool" where
  "inv_ids qc s =
     (\<forall>e \<in> set (pq s). is_ARRIVAL e \<longrightarrow> (\<exists>r \<in> set qc. cid (heap s ! r) = customerId e))"

text \<open>The record of a customer after its assignment to server \<open>i\<close> at time \<open>t\<close>.\<close>

definition served :: "Customer \<Rightarrow> nat \<Rightarrow> real \<Rightarrow> Customer" where
  "served c i t =
     c\<lparr>serviceStartTime := Some t,
       serviceEndTime := Some (t + serviceTime c),
       waitTime := t - arrivalTime c,
       tellerId := Some i,
       sentiment := (if t - arrivalTime c > 15 then ANGRY
                     else if t - arrivalTime c > 5 then NEUTRAL else HAPPY)\<rparr>"

lemma served_fields:
  "cid (served c i t) = cid c"
  "ctype (served c i t) = ctype c"
  "serviceType (served c i t) = serviceType c"
  "arrivalTime (served c i t) = arrivalTime c"
  "serviceTime (served c i t) = serviceTime c"
  "serviceStartTime (served c i t) = Some t"
  "serviceEndTime (served c i t) = Some (t + serviceTime c)"
  "tellerId (served c i t) = Some i"
  "waitTime (served c i t) = t - arrivalTime c"
  by (simp_all add: served_def)

lemma heap_assignService:
  "heap (assignService r i t s) = (heap s)[r := served (heap s ! r) i t]"
  by (simp add: assignService_def served_def Let_def)

lemma nth_heap_assignService:
  "heap (assignService r i t s) ! x =
     (if x = r \<and> r < length (heap s) then served (heap s ! r) i t else heap s ! x)"
proof (cases "r < length (heap s)")
  case True
  then show ?thesis by (simp add: heap_assignService nth_list_update)
next
  case False
  then have "(heap s)[r := served (heap s ! r) i t] = heap s"
    by (intro list_update_beyond) simp
  with False show ?thesis by (simp add: heap_assignService)
qed

lemma cid_assignService: "cid (heap (assignService r i t s) ! x) = cid (heap s ! x)"
  by (simp add: nth_heap_assignService served_fields)

lemma js_sort_Cons_set: "js_sort cmp xs = e # rest \<Longrightarrow> set xs = insert e (set rest)"
  using set_js_sort [of cmp xs] by simp

lemma inv_ids_step:
  assumes "inv_ids qc s" and "step qc s = Inr s'"
  shows "inv_ids qc s'"
  using assms(2)
proof (cases rule: step_Inr_cases)
  case (assign_arrival t k rest r i)
  from js_sort_Cons_set [OF assign_arrival(1)] assms(1)
  have "\<forall>e \<in> set rest. is_ARRIVAL e \<longrightarrow> (\<exists>r \<in> set qc. cid (heap s ! r) = customerId e)"
    by (simp add: inv_ids_def)
  then show ?thesis
    unfolding inv_ids_def assign_arrival(4)
    by (simp add: assignService_fields cid_assignService)
next
  case (enqueue t k rest r)
  from js_sort_Cons_set [OF enqueue(1)] assms(1) show ?thesis
    unfolding enqueue(4) by (simp add: inv_ids_def)
next
  case (idle t i rest)
  from js_sort_Cons_set [OF idle(1)] assms(1) show ?thesis
    unfolding idle(3) by (simp add: inv_ids_def)
next
  case (assign_waiting t i rest r wb)
  from js_sort_Cons_set [OF assign_waiting(1)] assms(1)
  have "\<forall>e \<in> set rest. is_ARRIVAL e \<longrightarrow> (\<exists>r \<in> set qc. cid (heap s ! r) = customerId e)"
    by (simp add: inv_ids_def)
  then show ?thesis
    unfolding inv_ids_def assign_waiting(3)
    by (simp add: assignService_fields cid_assignService)
qed

lemma step_returns:
  assumes "inv_ids qc s" and "pq s \<noteq> []"
  shows "\<exists>s'. step qc s = Inr s'"
proof -
  obtain ev rest where srt: "js_sort cmpEvents (pq s) = ev # rest"
    using assms(2) js_sort_Nil_iff [of cmpEvents "pq s"]
    by (cases "js_sort cmpEvents (pq s)") auto
  show ?thesis
  proof (cases ev)
    case (ARRIVAL t k)
    with js_sort_Cons_set [OF srt] assms(1) obtain r0 where
      "r0 \<in> set qc" "cid (heap s ! r0) = k"
      by (auto simp: inv_ids_def)
    then obtain r where "find (\<lambda>r. cid (heap s ! r) = k) qc = Some r"
      by (cases "find (\<lambda>r. cid (heap s ! r) = k) qc") (auto simp: find_None_iff)
    with srt ARRIVAL show ?thesis
      by (cases "findIndex (\<lambda>f. f \<le> t) (tellersFreeAt s)") (simp_all add: step_def)
  next
    case (TELLER_FREE t i)
    with srt show ?thesis
      by (cases "popNextCustomer (heap s) (waitingBuffer s)") (auto simp: step_def)
  qed
qed

lemma loop_returns:
  assumes "inv_ids qc s"
  shows "\<exists>s'. simulateQueue_loop qc s = Inr s' \<and> pq s' = []"
  using assms
proof (induction qc s rule: simulateQueue_loop.induct)
  case (1 qc s)
  show ?case
  proof (cases "pq s = []")
    case True
    then show ?thesis by (simp add: simulateQueue_loop.simps)
  next
    case False
    from step_returns [OF "1.prems" False] obtain s1 where s1: "step qc s = Inr s1" ..
    from "1.IH" [OF False s1 inv_ids_step [OF "1.prems" s1]]
    obtain s' where "simulateQueue_loop qc s1 = Inr s'" "pq s' = []" by blast
    with False s1 show ?thesis by (subst simulateQueue_loop.simps) simp
  qed
qed

lemma loop_states_length: "length (loop_states qc s) \<le> potential s + 1"
proof (induction qc s rule: loop_states.induct)
  case (1 qc s)
  show ?case
  proof (cases "pq s = []")
    case True
    then show ?thesis by (subst loop_states.simps) simp
  next
    case False
    show ?thesis
    proof (cases "step qc s")
      case (Inl e)
      with False show ?thesis by (subst loop_states.simps) simp
    next
      case (Inr s1)
      from "1.IH" [OF False Inr] step_potential [OF Inr]
      have "length (loop_states qc s1) \<le> potential s" by simp
      with False Inr show ?thesis by (subst loop_states.simps) simp
    qed
  qed
qed

lemma initialQueue_fields:
  "waitingBuffer (initialQueue qc tellers h evs) = []"
  "tellersFreeAt (initialQueue qc tellers h evs) = tellers"
  "heap (initialQueue qc tellers h evs) = h"
  "log_events (initialQueue qc tellers h evs) = evs"
  "set (pq (initialQueue qc tellers h evs)) =
     (\<lambda>r. ARRIVAL (arrivalTime (h ! r)) (cid (h ! r))) ` set qc"
  by (simp_all add: initialQueue_def set_js_sort)

lemma potential_initialQueue: "potential (initialQueue qc tellers h evs) = 2 * length qc"
proof -
  let ?es = "map (\<lambda>r. ARRIVAL (arrivalTime (h ! r)) (cid (h ! r))) qc"
  have a: "filter is_ARRIVAL ?es = ?es" by (simp add: filter_id_conv)
  have t: "filter is_TELLER_FREE ?es = []" by (simp add: filter_empty_conv)
  show ?thesis
    by (simp add: potential_def initialQueue_def filter_length_js_sort a t)
qed

lemma inv_ids_initialQueue: "inv_ids qc (initialQueue qc tellers h evs)"
  by (auto simp: inv_ids_def initialQueue_fields)

text \<open>
  The number of assignments made so far: \<open>assignService\<close> logs one \<open>SERVICE_START\<close> per
  call.
\<close>

definition assignments :: "qstate \<Rightarrow> nat" where
  "assignments s = length (filter (\<lambda>e. ev_type e = SERVICE_START) (log_events s))"

text \<open>
  One iteration from \<open>s\<close> to \<open>s'\<close>: the first of the sorted pending events is taken out,
  and either nothing is added and nobody is assigned, or the new state is an
  assignment at the time of that event, which adds one teller-free event at the end
  time of the service.
\<close>

definition processes_one :: "nat list \<Rightarrow> qstate \<Rightarrow> qstate \<Rightarrow> bool" where
  "processes_one qc s s' \<longleftrightarrow>
     pq s \<noteq> [] \<and> step qc s = Inr s' \<and>
     (\<exists>ev rest. js_sort cmpEvents (pq s) = ev # rest \<and>
        ((pq s' = rest \<and> assignments s' = assignments s) \<or>
         (\<exists>r i. s' = assignService r i (time ev) (s\<lparr>pq := rest, waitingBuffer := waitingBuffer s'\<rparr>) \<and>
            pq s' = rest @ [TELLER_FREE (time ev + serviceTime (heap s ! r)) i] \<and>
            assignments s' = Suc (assignments s))))"

lemma assignments_assignService: "assignments (assignService r i t s) = Suc (assignments s)"
  by (simp add: assignments_def assignService_def Let_def)

lemma step_processes_one:
  assumes "pq s \<noteq> []" and "step qc s = Inr s'"
  shows "processes_one qc s s'"
  using assms(2)
proof (cases rule: step_Inr_cases)
  case (assign_arrival t k rest r i)
  have "s' = assignService r i (time (ARRIVAL t k)) (s\<lparr>pq := rest, waitingBuffer := waitingBuffer s'\<rparr>)"
    using assign_arrival(4) by (simp add: assignService_fields)
  moreover have "pq s' = rest @ [TELLER_FREE (time (ARRIVAL t k) + serviceTime (heap s ! r)) i]"
    using assign_arrival(4) by (simp add: assignService_fields)
  moreover have "assignments s' = Suc (assignments s)"
    using assign_arrival(4) by (simp add: assignments_assignService) (simp add: assignments_def)
  ultimately show ?thesis using assms assign_arrival(1) unfolding processes_one_def by blast
next
  case (enqueue t k rest r)
  then show ?thesis using assms by (simp add: processes_one_def assignments_def)
next
  case (idle t i rest)
  then show ?thesis using assms by (simp add: processes_one_def assignments_def)
next
  case (assign_waiting t i rest r wb)
  have "s' = assignService r i (time (TELLER_FREE t i)) (s\<lparr>pq := rest, waitingBuffer := waitingBuffer s'\<rparr>)"
    using assign_waiting(3) by (simp add: assignService_fields)
  moreover have "pq s' = rest @ [TELLER_FREE (time (TELLER_FREE t i) + serviceTime (heap s ! r)) i]"
    using assign_waiting(3) by (simp add: assignService_fields)
  moreover have "assignments s' = Suc (assignments s)"
    using assign_waiting(3) by (simp add: assignments_assignService) (simp add: assignments_def)
  ultimately show ?thesis using assms assign_waiting(1) unfolding processes_one_def by blast
qed

lemma loop_states_hd: "hd (loop_states qc s) = s"
  by (subst loop_states.simps) (auto split: sum.splits)

lemma loop_states_ne: "loop_states qc s \<noteq> []"
  by (subst loop_states.simps) (auto split: sum.splits)

lemma loop_states_last:
  assumes "simulateQueue_loop qc s = Inr s'"
  shows "last (loop_states qc s) = s'"
  using assms
proof (induction qc s rule: loop_states.induct)
  case (1 qc s)
  show ?case
  proof (cases "pq s = []")
    case True
    with "1.prems" show ?thesis
      by (subst loop_states.simps) (simp add: simulateQueue_loop.simps)
  next
    case False
    show ?thesis
    proof (cases "step qc s")
      case (Inl e)
      with False "1.prems" show ?thesis by (simp add: simulateQueue_loop.simps)
    next
      case (Inr s1)
      with False "1.prems" have l: "simulateQueue_loop qc s1 = Inr s'"
        by (simp add: simulateQueue_loop.simps)
      have "last (loop_states qc s1) = s'" by (rule "1.IH" [OF False Inr l])
      with False Inr loop_states_ne [of qc s1] show ?thesis
        by (subst loop_states.simps) simp
    qed
  qed
qed

lemma loop_states_steps:
  assumes "Suc k < length (loop_states qc s)"
  shows "processes_one qc (loop_states qc s ! k) (loop_states qc s ! Suc k)"
  using assms
proof (induction qc s arbitrary: k rule: loop_states.induct)
  case (1 qc s)
  show ?case
  proof (cases "pq s = [] \<or> (\<exists>e. step qc s = Inl e)")
    case True
    then have "loop_states qc s = [s]" by (subst loop_states.simps) auto
    with "1.prems" show ?thesis by simp
  next
    case False
    then obtain s1 where ne: "pq s \<noteq> []" and s1: "step qc s = Inr s1"
      by (cases "step qc s") auto
    have ls: "loop_states qc s = s # loop_states qc s1"
      using ne s1 by (subst loop_states.simps) simp
    show ?thesis
    proof (cases k)
      case 0
      have "loop_states qc s1 ! 0 = s1"
        using loop_states_hd [of qc s1] loop_states_ne [of qc s1] by (simp add: hd_conv_nth)
      then show ?thesis using 0 ls step_processes_one [OF ne s1] by simp
    next
      case (Suc j)
      with "1.prems" ls have "Suc j < length (loop_states qc s1)" by simp
      from "1.IH" [OF ne s1 this] show ?thesis using Suc ls by simp
    qed
  qed
qed

lemma loop_states_count:
  assumes "simulateQueue_loop qc s = Inr s'"
  shows "int (length (loop_states qc s)) - 1 =
           int (length (pq s)) - int (length (pq s')) + (int (assignments s') - int (assignments s))"
  using assms
proof (induction qc s rule: loop_states.induct)
  case (1 qc s)
  show ?case
  proof (cases "pq s = []")
    case True
    with "1.prems" show ?thesis
      by (subst loop_states.simps) (simp add: simulateQueue_loop.simps)
  next
    case False
    show ?thesis
    proof (cases "step qc s")
      case (Inl e)
      with False "1.prems" show ?thesis by (simp add: simulateQueue_loop.simps)
    next
      case (Inr s1)
      with False "1.prems" have l: "simulateQueue_loop qc s1 = Inr s'"
        by (simp add: simulateQueue_loop.simps)
      note ih = "1.IH" [OF False Inr l]
      have ls: "length (loop_states qc s) = Suc (length (loop_states qc s1))"
        using False Inr by (subst loop_states.simps) simp
      from step_processes_one [OF False Inr] obtain ev rest where
        srt: "js_sort cmpEvents (pq s) = ev # rest" and
        alt: "(pq s1 = rest \<and> assignments s1 = assignments s) \<or>
              (\<exists>e i. pq s1 = rest @ [TELLER_FREE e i] \<and> assignments s1 = Suc (assignments s))"
        unfolding processes_one_def by blast
      have len: "length (pq s) = Suc (length rest)"
        using length_js_sort [of cmpEvents "pq s"] srt by simp
      from alt have "int (length (pq s1)) - int (assignments s1) =
                     int (length (pq s)) - 1 - int (assignments s)"
        using len by auto
      with ih ls show ?thesis by simp
    qed
  qed
qed

lemma length_pq_initialQueue: "length (pq (initialQueue qc tellers h evs)) = length qc"
  by (simp add: initialQueue_def length_js_sort)

text \<open>
  C8. For every population of a line (any list of customers), \<open>simulateQueue\<close>
  returns, with no pending event left. Its run is the sequence \<open>loop_states\<close>, from the
  initial queue to the state returned, and each member follows from the one before
  by one iteration, which takes exactly one pending event out and adds at most one,
  a teller-free event, exactly when it makes an assignment. The number of
  iterations is the number of customers plus the number of assignments of the run:
  every arrival and every teller-free event is taken out once. It is at most \<open>2n\<close>
  for \<open>n\<close> customers.
\<close>

theorem simulateQueue_terminates:
  "\<exists>s'. simulateQueue qc tellers h evs = Inr s' \<and> pq s' = [] \<and>
     hd (loop_states qc (initialQueue qc tellers h evs)) = initialQueue qc tellers h evs \<and>
     last (loop_states qc (initialQueue qc tellers h evs)) = s' \<and>
     (\<forall>k. Suc k < length (loop_states qc (initialQueue qc tellers h evs)) \<longrightarrow>
        processes_one qc (loop_states qc (initialQueue qc tellers h evs) ! k)
                         (loop_states qc (initialQueue qc tellers h evs) ! Suc k)) \<and>
     int (length (loop_states qc (initialQueue qc tellers h evs))) - 1 =
       int (length qc) + (int (assignments s') - int (assignments (initialQueue qc tellers h evs))) \<and>
     length (loop_states qc (initialQueue qc tellers h evs)) \<le> 2 * length qc + 1"
proof -
  let ?s0 = "initialQueue qc tellers h evs"
  obtain s' where s': "simulateQueue_loop qc ?s0 = Inr s'" and e: "pq s' = []"
    using loop_returns [OF inv_ids_initialQueue] by blast
  have b: "length (loop_states qc ?s0) \<le> 2 * length qc + 1"
    using loop_states_length [of qc ?s0] by (simp add: potential_initialQueue)
  have c: "int (length (loop_states qc ?s0)) - 1 =
       int (length qc) + (int (assignments s') - int (assignments ?s0))"
    using loop_states_count [OF s'] e by (simp add: length_pq_initialQueue)
  show ?thesis
    by (rule exI [of _ s'])
       (intro conjI allI impI s' [folded simulateQueue_def] e loop_states_hd
          loop_states_last [OF s'] loop_states_steps b c)
qed

theorem simulateQueue_terminates_witness:
  "(\<exists>s'. simulateQueue [0, 1] [0] near_tie_customers [] = Inr s' \<and> pq s' = [] \<and>
      last (loop_states [0, 1] (initialQueue [0, 1] [0] near_tie_customers [])) = s' \<and>
      assignments s' = 1) \<and>
   length (loop_states [0, 1] (initialQueue [0, 1] [0] near_tie_customers [])) = 4 \<and>
   Suc 2 < length (loop_states [0, 1] (initialQueue [0, 1] [0] near_tie_customers [])) \<and>
   processes_one [0, 1]
     (loop_states [0, 1] (initialQueue [0, 1] [0] near_tie_customers []) ! 2)
     (loop_states [0, 1] (initialQueue [0, 1] [0] near_tie_customers []) ! Suc 2) \<and>
   map (\<lambda>s. (pq s, waitingBuffer s, assignments s))
     (loop_states [0, 1] (initialQueue [0, 1] [0] near_tie_customers [])) =
     [([ARRIVAL 0 1, ARRIVAL 10 2], [], 0),
      ([ARRIVAL 10 2, TELLER_FREE (10 + 1 / 20000) 0], [], 1),
      ([ARRIVAL 10 2], [], 1),
      ([], [1], 1)]"
proof -
  let ?ls = "loop_states [0, 1] (initialQueue [0, 1] [0] near_tie_customers [])"
  have n: "length ?ls = 4" by code_simp
  have tr: "map (\<lambda>s. (pq s, waitingBuffer s, assignments s)) ?ls =
     [([ARRIVAL 0 1, ARRIVAL 10 2], [], 0),
      ([ARRIVAL 10 2, TELLER_FREE (10 + 1 / 20000) 0], [], 1),
      ([ARRIVAL 10 2], [], 1),
      ([], [1], 1)]"
    by code_simp
  have a0: "assignments (initialQueue [0, 1] [0] near_tie_customers []) = 0"
    by (simp add: assignments_def initialQueue_fields)
  from simulateQueue_terminates [of "[0, 1]" "[0]" near_tie_customers "[]"] obtain s' where
    s': "simulateQueue [0, 1] [0] near_tie_customers [] = Inr s'" "pq s' = []"
      "last ?ls = s'"
    and st: "\<forall>k. Suc k < length ?ls \<longrightarrow> processes_one [0, 1] (?ls ! k) (?ls ! Suc k)"
    and cnt: "int (length ?ls) - 1 =
       int (length [0, 1 :: nat]) +
         (int (assignments s') - int (assignments (initialQueue [0, 1] [0] near_tie_customers [])))"
    by blast
  from cnt [unfolded n a0] have as: "assignments s' = 1" by simp
  have lt: "Suc 2 < length ?ls" unfolding n by simp
  have p: "processes_one [0, 1] (?ls ! 2) (?ls ! Suc 2)" by (rule st [rule_format, OF lt])
  have ex: "\<exists>s'. simulateQueue [0, 1] [0] near_tie_customers [] = Inr s' \<and> pq s' = [] \<and>
      last ?ls = s' \<and> assignments s' = 1"
    by (rule exI [of _ s']) (intro conjI s' as)
  show ?thesis by (intro conjI ex n lt p tr)
qed


section \<open>Invariants of the event loop\<close>

text \<open>A property that every iteration preserves holds of the state the loop returns.\<close>

lemma loop_invariant:
  assumes "simulateQueue_loop qc s = Inr s'" and "I s"
    and "\<And>s s'. I s \<Longrightarrow> pq s \<noteq> [] \<Longrightarrow> step qc s = Inr s' \<Longrightarrow> I s'"
  shows "I s'"
  using assms
proof (induction qc s rule: simulateQueue_loop.induct)
  case (1 qc s)
  show ?case
  proof (cases "pq s = []")
    case True
    with "1.prems" show ?thesis by (simp add: simulateQueue_loop.simps)
  next
    case False
    show ?thesis
    proof (cases "step qc s")
      case (Inl e)
      with False "1.prems"(1) show ?thesis by (simp add: simulateQueue_loop.simps)
    next
      case (Inr s1)
      with False "1.prems"(1) have l: "simulateQueue_loop qc s1 = Inr s'"
        by (simp add: simulateQueue_loop.simps)
      have "I s1" using "1.prems"(2) False Inr by (rule "1.prems"(3))
      show ?thesis
        by (rule "1.IH" [OF False Inr l \<open>I s1\<close>]) (rule "1.prems"(3))
    qed
  qed
qed

lemma served_served: "served (served c i t) j u = served c j u"
  by (simp add: served_def)

lemma find_Some_set: "find P xs = Some x \<Longrightarrow> x \<in> set xs \<and> P x"
  by (auto simp: find_Some_iff)

lemma popNextCustomer_set:
  assumes "popNextCustomer h wb = Some (r, wb')"
  shows "set wb = insert r (set wb')" and "distinct wb \<Longrightarrow> distinct wb' \<and> r \<notin> set wb'"
proof -
  from popNextCustomer_Some [OF assms] obtain pre post where
    w: "wb = pre @ r # post" "wb' = pre @ post" by blast
  then show "set wb = insert r (set wb')" by auto
  from w show "distinct wb \<Longrightarrow> distinct wb' \<and> r \<notin> set wb'" by auto
qed

text \<open>
  What the engine does to the store: its length and the customers outside the line
  stay, and a customer of the line is as at the start or as one assignment leaves
  it. The waiting buffer holds customers of the line.
\<close>

definition inv_store :: "Customer list \<Rightarrow> nat list \<Rightarrow> qstate \<Rightarrow> bool" where
  "inv_store h0 qc s =
     (length (heap s) = length h0 \<and> set (waitingBuffer s) \<subseteq> set qc \<and>
      (\<forall>x. cid (heap s ! x) = cid (h0 ! x)) \<and>
      (\<forall>x<length h0. heap s ! x = h0 ! x \<or>
         (x \<in> set qc \<and> (\<exists>i t. heap s ! x = served (h0 ! x) i t))))"

lemma inv_store_assign:
  assumes "inv_store h0 qc s" and "r \<in> set qc" and "set wb \<subseteq> set qc"
  shows "inv_store h0 qc (assignService r i t (s\<lparr>pq := rest, waitingBuffer := wb\<rparr>))"
proof -
  let ?s1 = "s\<lparr>pq := rest, waitingBuffer := wb\<rparr>"
  have len: "length (heap s) = length h0" using assms(1) by (simp add: inv_store_def)
  have "heap (assignService r i t ?s1) ! x = h0 ! x \<or>
          (x \<in> set qc \<and> (\<exists>j u. heap (assignService r i t ?s1) ! x = served (h0 ! x) j u))"
    if x: "x < length h0" for x
  proof (cases "x = r")
    case True
    from assms(1) x have "heap s ! x = h0 ! x \<or> (\<exists>i t. heap s ! x = served (h0 ! x) i t)"
      by (auto simp: inv_store_def)
    then obtain j u where "served (heap s ! x) i t = served (h0 ! x) j u"
      using served_served by metis
    with True x len have "heap (assignService r i t ?s1) ! x = served (h0 ! x) j u"
      by (simp add: nth_heap_assignService)
    then have "\<exists>a b. heap (assignService r i t ?s1) ! x = served (h0 ! x) a b"
      by (intro exI)
    with True assms(2) show ?thesis by simp
  next
    case False
    with assms(1) x show ?thesis
      by (auto simp: nth_heap_assignService inv_store_def)
  qed
  with assms show ?thesis
    by (simp add: inv_store_def assignService_fields cid_assignService)
qed

lemma inv_store_step:
  assumes "inv_store h0 qc s" and "step qc s = Inr s'"
  shows "inv_store h0 qc s'"
  using assms(2)
proof (cases rule: step_Inr_cases)
  case (assign_arrival t k rest r i)
  have "r \<in> set qc" using find_Some_set [OF assign_arrival(2)] by simp
  moreover have "set (waitingBuffer s) \<subseteq> set qc" using assms(1) by (simp add: inv_store_def)
  ultimately have "inv_store h0 qc (assignService r i t (s\<lparr>pq := rest, waitingBuffer := waitingBuffer s\<rparr>))"
    by (rule inv_store_assign [OF assms(1)])
  then show ?thesis unfolding assign_arrival(4) by simp
next
  case (enqueue t k rest r)
  have "r \<in> set qc" using find_Some_set [OF enqueue(2)] by simp
  with assms(1) show ?thesis unfolding enqueue(4) by (simp add: inv_store_def)
next
  case (idle t i rest)
  with assms(1) show ?thesis by (simp add: inv_store_def)
next
  case (assign_waiting t i rest r wb)
  from popNextCustomer_set(1) [OF assign_waiting(2)] assms(1)
  have "r \<in> set qc" "set wb \<subseteq> set qc" by (auto simp: inv_store_def)
  then show ?thesis unfolding assign_waiting(3) by (rule inv_store_assign [OF assms(1)])
qed

lemma inv_store_initialQueue: "inv_store h qc (initialQueue qc tellers h evs)"
  by (simp add: inv_store_def initialQueue_fields)

lemma simulateQueue_store:
  assumes "simulateQueue qc tellers h evs = Inr s'"
  shows "inv_store h qc s'"
  using assms inv_store_initialQueue inv_store_step
  unfolding simulateQueue_def by (rule loop_invariant)


text \<open>
  The ids of the pending arrivals, and the ids of the customers whose service start
  is logged.
\<close>

definition ar_ids :: "QueueEvent list \<Rightarrow> nat list" where
  "ar_ids es = map customerId (filter is_ARRIVAL es)"

definition started :: "SimulationEvent list \<Rightarrow> nat list" where
  "started evs = map ev_customerId (filter (\<lambda>e. ev_type e = SERVICE_START) evs)"

lemma ar_ids_simps:
  "ar_ids [] = []"
  "ar_ids (ARRIVAL t k # es) = k # ar_ids es"
  "ar_ids (TELLER_FREE t i # es) = ar_ids es"
  "ar_ids (es @ [TELLER_FREE t i]) = ar_ids es"
  by (simp_all add: ar_ids_def)

lemma ar_ids_js_sort: "mset (ar_ids (js_sort cmp es)) = mset (ar_ids es)"
  by (simp add: ar_ids_def mset_js_sort)

lemma ar_ids_sorted:
  assumes "js_sort cmp es = ev # rest"
  shows "set (ar_ids es) = set (ar_ids (ev # rest))"
    and "distinct (ar_ids es) \<longleftrightarrow> distinct (ar_ids (ev # rest))"
proof -
  have m: "mset (ar_ids es) = mset (ar_ids (ev # rest))"
    using ar_ids_js_sort [of cmp es] assms by simp
  show "set (ar_ids es) = set (ar_ids (ev # rest))" by (rule mset_eq_setD [OF m])
  show "distinct (ar_ids es) \<longleftrightarrow> distinct (ar_ids (ev # rest))"
    by (rule mset_eq_imp_distinct_iff [OF m])
qed

lemma started_assignService:
  "started (log_events (assignService r i t s)) = started (log_events s) @ [cid (heap s ! r)]"
  by (simp add: started_def assignService_def Let_def)

text \<open>
  No customer is pending twice, and no pending customer has a logged service start:
  the waiting customers are distinct, the pending arrivals have distinct ids, and
  neither are among the logged starts, which are distinct too. \<open>S0\<close> holds the ids
  logged before the engine ran.
\<close>

definition inv_once :: "Customer list \<Rightarrow> nat list \<Rightarrow> nat set \<Rightarrow> qstate \<Rightarrow> bool" where
  "inv_once h0 qc S0 s =
     (distinct (waitingBuffer s) \<and> distinct (ar_ids (pq s)) \<and>
      distinct (started (log_events s)) \<and>
      (\<forall>r \<in> set (waitingBuffer s).
         cid (h0 ! r) \<notin> set (ar_ids (pq s)) \<and> cid (h0 ! r) \<notin> set (started (log_events s))) \<and>
      (\<forall>k \<in> set (ar_ids (pq s)). k \<notin> set (started (log_events s))) \<and>
      set (started (log_events s)) \<subseteq> S0 \<union> (\<lambda>r. cid (h0 ! r)) ` set qc)"

lemma inv_once_step:
  assumes inj: "inj_on (\<lambda>r. cid (h0 ! r)) (set qc)"
    and st: "inv_store h0 qc s" and once: "inv_once h0 qc S0 s"
    and step: "step qc s = Inr s'"
  shows "inv_once h0 qc S0 s'"
proof -
  have cid: "cid (heap s ! x) = cid (h0 ! x)" for x using st by (simp add: inv_store_def)
  have wbq: "set (waitingBuffer s) \<subseteq> set qc" using st by (simp add: inv_store_def)
  note o = once [unfolded inv_once_def]
  from step show ?thesis
  proof (cases rule: step_Inr_cases)
    case (assign_arrival t k rest r i)
    note ids = ar_ids_sorted [OF assign_arrival(1)]
    from find_Some_set [OF assign_arrival(2)] have r: "r \<in> set qc" "cid (h0 ! r) = k"
      by (simp_all add: cid)
    from o ids have k: "k \<notin> set (ar_ids rest)" "distinct (ar_ids rest)"
      "k \<notin> set (started (log_events s))" "set (ar_ids rest) \<subseteq> set (ar_ids (pq s))"
      by (auto simp: ar_ids_simps)
    have wbk: "\<forall>r' \<in> set (waitingBuffer s). cid (h0 ! r') \<noteq> k"
      using o ids by (auto simp: ar_ids_simps)
    show ?thesis
      unfolding inv_once_def assign_arrival(4)
      using o k wbk r
      by (auto simp: assignService_fields started_assignService ar_ids_simps cid)
  next
    case (enqueue t k rest r)
    note ids = ar_ids_sorted [OF enqueue(1)]
    from find_Some_set [OF enqueue(2)] have r: "r \<in> set qc" "cid (h0 ! r) = k"
      by (simp_all add: cid)
    from o ids have k: "k \<notin> set (ar_ids rest)" "distinct (ar_ids rest)"
      "k \<notin> set (started (log_events s))" "set (ar_ids rest) \<subseteq> set (ar_ids (pq s))"
      by (auto simp: ar_ids_simps)
    have "r \<notin> set (waitingBuffer s)" using o ids r by (auto simp: ar_ids_simps)
    then show ?thesis
      unfolding inv_once_def enqueue(4)
      using o k r by auto
  next
    case (idle t i rest)
    note ids = ar_ids_sorted [OF idle(1)]
    show ?thesis
      unfolding inv_once_def idle(3)
      using o ids idle(2) by (auto simp: ar_ids_simps)
  next
    case (assign_waiting t i rest r wb)
    note ids = ar_ids_sorted [OF assign_waiting(1)]
    note pop = popNextCustomer_set [OF assign_waiting(2)]
    from pop o have wb: "distinct wb" "r \<notin> set wb" "set wb \<subseteq> set (waitingBuffer s)"
      "r \<in> set (waitingBuffer s)"
      by auto
    with wbq have rq: "r \<in> set qc" "set wb \<subseteq> set qc" by auto
    have other: "\<forall>r' \<in> set wb. cid (h0 ! r') \<noteq> cid (h0 ! r)"
      using inj rq wb(2) by (auto dest: inj_onD)
    have ar: "set (ar_ids rest) = set (ar_ids (pq s))" "distinct (ar_ids rest)"
      using ids o by (simp_all add: ar_ids_simps)
    show ?thesis
      unfolding inv_once_def assign_waiting(3)
      using o wb rq other ar
      by (auto simp: assignService_fields started_assignService ar_ids_simps cid)
  qed
qed

section \<open>The lifecycle of a customer\<close>

text \<open>The optional fields of a customer as \<open>generateArrivals\<close> leaves them.\<close>

definition created :: "Customer \<Rightarrow> bool" where
  "created c \<longleftrightarrow>
     serviceStartTime c = None \<and> serviceEndTime c = None \<and> tellerId c = None \<and>
     waitTime c = 0 \<and> sentiment c = HAPPY"

lemma generateArrivals_loop_created:
  assumes "generateArrivals_loop cfg us t n cs evs = Inr (cs', evs')"
    and "map cid cs = [n0..<n]" and "n0 \<le> n"
    and "\<forall>c \<in> set cs. created c" and "started evs = []"
  shows "map cid cs' = [n0..<n0 + length cs'] \<and> (\<forall>c \<in> set cs'. created c) \<and> started evs' = []"
  using assms
proof (induction "length us" arbitrary: us t n cs evs rule: less_induct)
  case less
  have len: "length cs = n - n0"
    using less.prems(2) by (metis length_map length_upt)
  have fin: ?case if "cs' = cs" "evs' = evs"
    using that less.prems len by auto
  show ?case
  proof (cases us)
    case Nil
    with less.prems(1) have "cs' = cs" "evs' = evs" by (auto split: if_splits)
    then show ?thesis by (rule fin)
  next
    case (Cons u us1)
    show ?thesis
    proof (cases "t < durationMinutes cfg")
      case False
      with Cons less.prems(1) have "cs' = cs" "evs' = evs" by simp_all
      then show ?thesis by (rule fin)
    next
      case True
      show ?thesis
      proof (cases "randomExponential u (arrivalRatePerHour cfg / 60)")
        case (Num g)
        show ?thesis
        proof (cases "t + g > durationMinutes cfg")
          case over: True
          with True Num Cons less.prems(1) have "cs' = cs" "evs' = evs" by simp_all
          then show ?thesis by (rule fin)
        next
          case within: False
          from True Num within Cons less.prems(1) obtain uR uH uT rest where
            us: "us1 = uR # uH # uT # rest"
            by (auto split: list.splits)
          let ?line = "if uH * 100 < percentHighCounterTasks cfg
                       then highCounter cfg else lowCounter cfg"
          from True Num within us Cons less.prems(1) obtain d where
            d: "randomTriangular uT (serviceMin ?line) (serviceMax ?line) (serviceMode ?line)
                  = Some d"
            by (cases "randomTriangular uT (serviceMin ?line) (serviceMax ?line)
                         (serviceMode ?line)")
               (simp_all add: Let_def)
          let ?c = "\<lparr>cid = n,
                     ctype = (if uR * 100 < percentReserved cfg then RESERVED else WALK_IN),
                     serviceType = (if uH * 100 < percentHighCounterTasks cfg then HIGH_COUNTER
                                    else LOW_COUNTER),
                     arrivalTime = t + g, serviceStartTime = None, serviceEndTime = None,
                     tellerId = None, waitTime = 0, serviceTime = d, sentiment = HAPPY\<rparr>"
          let ?e = "\<lparr>ev_time = t + g, ev_type = EV_ARRIVAL, ev_customerId = n,
                     details = None\<rparr>"
          from True Num within us d Cons less.prems(1)
          have rec: "generateArrivals_loop cfg rest (t + g) (n + 1) (cs @ [?c]) (evs @ [?e])
                       = Inr (cs', evs')"
            by (simp add: Let_def)
          have p1: "map cid (cs @ [?c]) = [n0..<n + 1]"
            using less.prems(2,3) by simp
          have p2: "\<forall>c \<in> set (cs @ [?c]). created c"
            using less.prems(4) by (simp add: created_def)
          have p3: "started (evs @ [?e]) = []"
            using less.prems(5) by (simp add: started_def)
          have p0: "n0 \<le> n + 1" using less.prems(3) by simp
          have "length rest < length us" using Cons us by simp
          from less.hyps [OF this rec p1 p0 p2 p3] show ?thesis .
        qed
      next
        case PosInf
        with True Cons less.prems(1) have "cs' = cs" "evs' = evs" by simp_all
        then show ?thesis by (rule fin)
      next
        case NegInf
        with True Cons less.prems(1) show ?thesis by simp
      next
        case NaN
        with True Cons less.prems(1) show ?thesis by simp
      qed
    qed
  qed
qed

lemma generateArrivals_created:
  assumes "generateArrivals cfg us = Inr (cs, evs)"
  shows "map cid cs = [1..<Suc (length cs)] \<and> (\<forall>c \<in> set cs. created c) \<and> started evs = []"
  using generateArrivals_loop_created [OF assms [unfolded generateArrivals_def], of 1]
  by (simp add: started_def)

lemma set_lineRefs: "set (lineRefs st h) = {i. i < length h \<and> serviceType (h ! i) = st}"
  by (auto simp: lineRefs_def)

lemma lineRefs_cong:
  assumes "length h' = length h" and "\<forall>x<length h. serviceType (h' ! x) = serviceType (h ! x)"
  shows "lineRefs st h' = lineRefs st h"
  unfolding lineRefs_def using assms by (auto intro: filter_cong)

lemma inj_cid_nth:
  assumes "distinct (map cid h)"
  shows "inj_on (\<lambda>r. cid (h ! r)) {..<length h}"
proof (rule inj_onI)
  fix x y assume xy: "x \<in> {..<length h}" "y \<in> {..<length h}" "cid (h ! x) = cid (h ! y)"
  show "x = y"
  proof (rule ccontr)
    assume "x \<noteq> y"
    with assms xy(1,2) have "map cid h ! x \<noteq> map cid h ! y"
      unfolding distinct_conv_nth by simp
    with xy show False by simp
  qed
qed

lemma ids_lineRefs:
  assumes "distinct (map cid h)"
  shows "distinct (map (\<lambda>r. cid (h ! r)) (lineRefs st h))"
proof -
  have "inj_on (\<lambda>r. cid (h ! r)) (set (lineRefs st h))"
    by (rule inj_on_subset [OF inj_cid_nth [OF assms]]) (auto simp: set_lineRefs)
  moreover have "distinct (lineRefs st h)" by (simp add: lineRefs_def)
  ultimately show ?thesis by (simp add: distinct_map)
qed

lemma inv_once_initialQueue:
  assumes "distinct (map (\<lambda>r. cid (h ! r)) qc)" and "distinct (started evs)"
    and "\<forall>r \<in> set qc. cid (h ! r) \<notin> set (started evs)"
  shows "inv_once h qc (set (started evs)) (initialQueue qc tellers h evs)"
proof -
  let ?es = "map (\<lambda>r. ARRIVAL (arrivalTime (h ! r)) (cid (h ! r))) qc"
  have "ar_ids ?es = map (\<lambda>r. cid (h ! r)) qc"
    by (simp add: ar_ids_def filter_id_conv comp_def)
  then have m: "mset (ar_ids (pq (initialQueue qc tellers h evs))) = mset (map (\<lambda>r. cid (h ! r)) qc)"
    by (simp add: initialQueue_def ar_ids_js_sort)
  have d: "distinct (ar_ids (pq (initialQueue qc tellers h evs)))"
    using mset_eq_imp_distinct_iff [OF m] assms(1) by simp
  have s: "set (ar_ids (pq (initialQueue qc tellers h evs))) = (\<lambda>r. cid (h ! r)) ` set qc"
    using mset_eq_setD [OF m] by simp
  show ?thesis
    unfolding inv_once_def using d s assms(2,3)
    by (auto simp: initialQueue_fields)
qed

lemma simulateQueue_once:
  assumes "distinct (map (\<lambda>r. cid (h ! r)) qc)" and "distinct (started evs)"
    and "\<forall>r \<in> set qc. cid (h ! r) \<notin> set (started evs)"
    and "simulateQueue qc tellers h evs = Inr s'"
  shows "inv_store h qc s' \<and> inv_once h qc (set (started evs)) s'"
proof -
  have inj: "inj_on (\<lambda>r. cid (h ! r)) (set qc)"
    using assms(1) by (simp add: distinct_map)
  show ?thesis
  proof (rule loop_invariant [OF assms(4) [unfolded simulateQueue_def],
           where I = "\<lambda>s. inv_store h qc s \<and> inv_once h qc (set (started evs)) s"])
    show "inv_store h qc (initialQueue qc tellers h evs) \<and>
          inv_once h qc (set (started evs)) (initialQueue qc tellers h evs)"
      using inv_store_initialQueue inv_once_initialQueue [OF assms(1-3)] by simp
  next
    fix s s1
    assume "inv_store h qc s \<and> inv_once h qc (set (started evs)) s" "step qc s = Inr s1"
    then show "inv_store h qc s1 \<and> inv_once h qc (set (started evs)) s1"
      using inv_store_step inv_once_step [OF inj] by blast
  qed
qed

lemma simulateQueue_returns: "\<exists>s'. simulateQueue qc tellers h evs = Inr s'"
  using loop_returns [OF inv_ids_initialQueue] unfolding simulateQueue_def by blast

lemma processEvents_Inr:
  assumes "processEvents cfg cs evs = Inr (cs', evs')"
  obtains s1 s2 where
    "simulateQueue (lineRefs HIGH_COUNTER (js_sort (\<lambda>a b. arrivalTime a - arrivalTime b) cs))
       (replicate (nat (count_c (highCounter cfg))) 0)
       (js_sort (\<lambda>a b. arrivalTime a - arrivalTime b) cs) evs = Inr s1"
    "simulateQueue (lineRefs LOW_COUNTER (heap s1))
       (replicate (nat (count_c (lowCounter cfg))) 0) (heap s1) (log_events s1) = Inr s2"
    "cs' = heap s2"
    "evs' = js_sort (\<lambda>a b. ev_time a - ev_time b) (log_events s2)"
proof -
  let ?h = "js_sort (\<lambda>a b. arrivalTime a - arrivalTime b) cs"
  obtain a where a: "newArray (count_c (highCounter cfg)) (0::real) = Inr a"
    using assms by (cases "newArray (count_c (highCounter cfg)) (0::real)")
      (simp_all add: processEvents_def)
  obtain b where b: "newArray (count_c (lowCounter cfg)) (0::real) = Inr b"
    using assms a by (cases "newArray (count_c (lowCounter cfg)) (0::real)")
      (simp_all add: processEvents_def)
  obtain s1 where s1: "simulateQueue (lineRefs HIGH_COUNTER ?h) a ?h evs = Inr s1"
    using simulateQueue_returns by blast
  obtain s2 where s2: "simulateQueue (lineRefs LOW_COUNTER (heap s1)) b (heap s1) (log_events s1) = Inr s2"
    using simulateQueue_returns by blast
  from assms a b s1 s2 have "cs' = heap s2"
    "evs' = js_sort (\<lambda>a b. ev_time a - ev_time b) (log_events s2)"
    by (simp_all add: processEvents_def Let_def)
  with s1 s2 newArray_Inr [OF a] newArray_Inr [OF b] show thesis
    by (intro that [of s1 s2]) simp_all
qed

lemma processEvents_returns:
  assumes "0 \<le> count_c (highCounter cfg)" "count_c (highCounter cfg) < 2 ^ 32"
    "0 \<le> count_c (lowCounter cfg)" "count_c (lowCounter cfg) < 2 ^ 32"
  shows "\<exists>out. processEvents cfg cs evs = Inr out"
proof -
  let ?h = "js_sort (\<lambda>a b. arrivalTime a - arrivalTime b) cs"
  let ?a = "replicate (nat (count_c (highCounter cfg))) (0::real)"
  let ?b = "replicate (nat (count_c (lowCounter cfg))) (0::real)"
  obtain s1 where s1: "simulateQueue (lineRefs HIGH_COUNTER ?h) ?a ?h evs = Inr s1"
    using simulateQueue_returns by blast
  obtain s2 where s2: "simulateQueue (lineRefs LOW_COUNTER (heap s1)) ?b (heap s1) (log_events s1) = Inr s2"
    using simulateQueue_returns by blast
  from assms s1 s2 show ?thesis
    by (simp add: processEvents_def newArray_def Let_def)
qed

lemma started_js_sort: "mset (started (js_sort cmp evs)) = mset (started evs)"
  by (simp add: started_def mset_js_sort)

lemma nth_js_sort_ex: "x < length cs \<Longrightarrow> js_sort cmp cs ! x \<in> set cs"
  by (metis length_js_sort nth_mem set_js_sort)

lemma inv_store_serviceType:
  assumes "inv_store h0 qc s" and "x < length h0"
  shows "serviceType (heap s ! x) = serviceType (h0 ! x)"
  using assms by (auto simp: inv_store_def served_fields)

text \<open>The two runs of the engine of \<open>processEvents\<close>, as one statement about the store.\<close>

lemma processEvents_lifecycle:
  assumes pe: "processEvents cfg cs evs = Inr (cs', evs')"
    and ids: "distinct (map cid cs)" and log: "started evs = []"
  shows "length cs' = length cs \<and>
         (\<forall>x<length cs. cs' ! x = js_sort (\<lambda>a b. arrivalTime a - arrivalTime b) cs ! x \<or>
            (\<exists>i t. cs' ! x = served (js_sort (\<lambda>a b. arrivalTime a - arrivalTime b) cs ! x) i t)) \<and>
         distinct (started evs')"
proof -
  let ?h = "js_sort (\<lambda>a b. arrivalTime a - arrivalTime b) cs"
  let ?qh = "lineRefs HIGH_COUNTER ?h"
  let ?ql = "lineRefs LOW_COUNTER ?h"
  from pe obtain s1 s2 where
    s1: "simulateQueue ?qh (replicate (nat (count_c (highCounter cfg))) 0) ?h evs = Inr s1"
    and s2: "simulateQueue (lineRefs LOW_COUNTER (heap s1))
               (replicate (nat (count_c (lowCounter cfg))) 0) (heap s1) (log_events s1) = Inr s2"
    and out: "cs' = heap s2" "evs' = js_sort (\<lambda>a b. ev_time a - ev_time b) (log_events s2)"
    by (rule processEvents_Inr)
  have len: "length ?h = length cs" by (simp add: length_js_sort)
  have "mset (map cid ?h) = mset (map cid cs)" by (simp add: mset_js_sort)
  then have dh: "distinct (map cid ?h)" using ids mset_eq_imp_distinct_iff by blast
  have inj: "inj_on (\<lambda>r. cid (?h ! r)) {..<length ?h}"
    by (rule inj_cid_nth [OF dh])
  from simulateQueue_once [OF ids_lineRefs [OF dh] _ _ s1] log
  have st1: "inv_store ?h ?qh s1" and on1: "inv_once ?h ?qh {} s1" by simp_all
  have len1: "length (heap s1) = length ?h" using st1 by (simp add: inv_store_def)
  have ql: "lineRefs LOW_COUNTER (heap s1) = ?ql"
    using len1 inv_store_serviceType [OF st1] by (intro lineRefs_cong) simp_all
  have cid1: "cid (heap s1 ! x) = cid (?h ! x)" for x using st1 by (simp add: inv_store_def)
  have low_same: "heap s1 ! x = ?h ! x" if "x \<in> set ?ql" for x
  proof -
    from that have "x < length ?h" "x \<notin> set ?qh" by (auto simp: set_lineRefs)
    with st1 show ?thesis by (auto simp: inv_store_def)
  qed
  have d1: "distinct (map (\<lambda>r. cid (heap s1 ! r)) ?ql)"
    using ids_lineRefs [OF dh, of LOW_COUNTER] by (simp add: cid1)
  have log1: "distinct (started (log_events s1))"
    "set (started (log_events s1)) \<subseteq> (\<lambda>r. cid (?h ! r)) ` set ?qh"
    using on1 by (simp_all add: inv_once_def)
  have disj: "\<forall>r \<in> set ?ql. cid (heap s1 ! r) \<notin> set (started (log_events s1))"
  proof
    fix r assume r: "r \<in> set ?ql"
    show "cid (heap s1 ! r) \<notin> set (started (log_events s1))"
    proof
      assume "cid (heap s1 ! r) \<in> set (started (log_events s1))"
      with log1(2) obtain r' where r': "r' \<in> set ?qh" "cid (?h ! r') = cid (?h ! r)"
        by (auto simp: cid1)
      with r inj have "r' = r" by (auto simp: set_lineRefs dest: inj_onD)
      with r r' show False by (auto simp: set_lineRefs)
    qed
  qed
  from simulateQueue_once [OF d1 log1(1) disj s2 [unfolded ql]]
  have st2: "inv_store (heap s1) ?ql s2"
    and on2: "inv_once (heap s1) ?ql (set (started (log_events s1))) s2" by simp_all
  have len2: "length (heap s2) = length ?h" using st2 len1 by (simp add: inv_store_def)
  have pt: "heap s2 ! x = ?h ! x \<or> (\<exists>i t. heap s2 ! x = served (?h ! x) i t)"
    if x: "x < length ?h" for x
  proof (cases "x \<in> set ?ql")
    case True
    from st2 x len1 have "heap s2 ! x = heap s1 ! x \<or> (\<exists>i t. heap s2 ! x = served (heap s1 ! x) i t)"
      by (auto simp: inv_store_def)
    with low_same [OF True] show ?thesis by simp
  next
    case False
    with st2 x len1 have "heap s2 ! x = heap s1 ! x" by (auto simp: inv_store_def)
    moreover from st1 x have "heap s1 ! x = ?h ! x \<or> (\<exists>i t. heap s1 ! x = served (?h ! x) i t)"
      by (auto simp: inv_store_def)
    ultimately show ?thesis by simp
  qed
  have "distinct (started (log_events s2))" using on2 by (simp add: inv_once_def)
  then have "distinct (started evs')"
    using mset_eq_imp_distinct_iff [OF started_js_sort] out(2) by blast
  with len len2 pt out(1) show ?thesis by simp
qed

text \<open>
  C7, as amended. In a run that returns, the generator creates the customers with
  the ids 1, 2, ... in order, each once, with start time, end time and server unset
  and with wait time 0 and sentiment Happy (these two are numbers and enum values
  in the source, not optional fields). The final population is the created one in
  arrival order: each customer is either exactly as created, so unassigned
  customers keep their null start and end, or as one assignment leaves it
  (\<open>served\<close>: all five fields written together, the others untouched). Every
  assignment logs one service start, \<open>assignService\<close> is the only writer of
  customers, and the logged starts have distinct customer ids: no customer is
  assigned twice.
\<close>

theorem customer_lifecycle:
  assumes "run cfg us = Inr result"
  shows "\<exists>cs evs. generateArrivals cfg us = Inr (cs, evs) \<and>
      map cid cs = [1..<Suc (length cs)] \<and>
      (\<forall>c \<in> set cs. serviceStartTime c = None \<and> serviceEndTime c = None \<and>
         tellerId c = None \<and> waitTime c = 0 \<and> sentiment c = HAPPY) \<and>
      length (customers result) = length cs \<and>
      (\<forall>x<length cs.
         customers result ! x = js_sort (\<lambda>a b. arrivalTime a - arrivalTime b) cs ! x \<or>
         (\<exists>i t. customers result ! x =
                  served (js_sort (\<lambda>a b. arrivalTime a - arrivalTime b) cs ! x) i t)) \<and>
      distinct (started (events result))"
proof -
  from run_Inr [OF assms] obtain cs evs cs' evs' where
    gen: "generateArrivals cfg us = Inr (cs, evs)"
    and pe: "processEvents cfg cs evs = Inr (cs', evs')"
    and res: "result = \<lparr>customers = cs', events = evs', config = cfg\<rparr>"
    by blast
  from generateArrivals_created [OF gen]
  have ids: "map cid cs = [1..<Suc (length cs)]" and cr: "\<forall>c \<in> set cs. created c"
    and log: "started evs = []" by simp_all
  from ids have "distinct (map cid cs)" by simp
  from processEvents_lifecycle [OF pe this log] res
  have "length (customers result) = length cs \<and>
      (\<forall>x<length cs.
         customers result ! x = js_sort (\<lambda>a b. arrivalTime a - arrivalTime b) cs ! x \<or>
         (\<exists>i t. customers result ! x =
                  served (js_sort (\<lambda>a b. arrivalTime a - arrivalTime b) cs ! x) i t)) \<and>
      distinct (started (events result))"
    by simp
  with gen ids cr show ?thesis unfolding created_def by blast
qed

theorem customer_lifecycle_witness:
  "run example_config example_draws = Inr example_result \<and>
   generateArrivals example_config example_draws = Inr ([example_created], example_arrival_log) \<and>
   customers example_result = [served example_created 0 0] \<and>
   distinct (started (events example_result))"
proof -
  from customer_lifecycle [OF example_run]
  have "distinct (started (events example_result))" by blast
  moreover have "customers example_result = [served example_created 0 0]"
    by (simp add: example_result_def served_def example_created_def)
  ultimately show ?thesis using example_run example_generateArrivals by simp
qed

text \<open>
  The claim as stated fails in the example run: the customer is created with wait
  time 0 and sentiment Happy, the very values that its assignment at its arrival
  time writes.
\<close>

theorem created_with_defaults_counterexample:
  "generateArrivals example_config example_draws = Inr ([example_created], example_arrival_log) \<and>
   waitTime example_created = 0 \<and> sentiment example_created = HAPPY \<and>
   waitTime example_created = waitTime (served example_created 0 0) \<and>
   sentiment example_created = sentiment (served example_created 0 0)"
  using example_generateArrivals by (simp add: example_created_def served_def)

section \<open>Configurations that the specification calls invalid\<close>

text \<open>With no server, no arrival is assigned: the store and the log stay as they are.\<close>

definition inv_idle :: "Customer list \<Rightarrow> SimulationEvent list \<Rightarrow> qstate \<Rightarrow> bool" where
  "inv_idle h evs s =
     (tellersFreeAt s = [] \<and> list_all is_ARRIVAL (pq s) \<and> heap s = h \<and> log_events s = evs)"

lemma inv_idle_step:
  assumes "inv_idle h evs s" and "step qc s = Inr s'"
  shows "inv_idle h evs s'"
  using assms(2)
proof (cases rule: step_Inr_cases)
  case (assign_arrival t k rest r i)
  with assms(1) show ?thesis by (simp add: inv_idle_def)
next
  case (enqueue t k rest r)
  from js_sort_Cons_set [OF enqueue(1)] assms(1) show ?thesis
    unfolding enqueue(4) by (simp add: inv_idle_def list_all_iff)
next
  case (idle t i rest)
  from js_sort_Cons_set [OF idle(1)] assms(1) show ?thesis
    by (auto simp: inv_idle_def list_all_iff)
next
  case (assign_waiting t i rest r wb)
  from js_sort_Cons_set [OF assign_waiting(1)] assms(1) show ?thesis
    by (auto simp: inv_idle_def list_all_iff)
qed

lemma simulateQueue_no_servers:
  assumes "simulateQueue qc [] h evs = Inr s'"
  shows "heap s' = h \<and> log_events s' = evs"
proof -
  have "inv_idle h evs s'"
  proof (rule loop_invariant [OF assms [unfolded simulateQueue_def], where I = "inv_idle h evs"])
    show "inv_idle h evs (initialQueue qc [] h evs)"
      by (auto simp: inv_idle_def initialQueue_fields list_all_iff)
  qed (rule inv_idle_step)
  then show ?thesis by (simp add: inv_idle_def)
qed

lemma created_nth_js_sort:
  assumes "\<forall>c \<in> set cs. created c" and "x < length cs"
  shows "created (js_sort cmp cs ! x)"
  using assms nth_js_sort_ex [of x cs cmp] by blast

lemma processEvents_no_servers:
  assumes pe: "processEvents cfg cs evs = Inr (cs', evs')" and cr: "\<forall>c \<in> set cs. created c"
  shows "length cs' = length cs \<and>
     (count_c (highCounter cfg) = 0 \<longrightarrow>
        (\<forall>c \<in> set cs'. serviceType c = HIGH_COUNTER \<longrightarrow> created c)) \<and>
     (count_c (lowCounter cfg) = 0 \<longrightarrow>
        (\<forall>c \<in> set cs'. serviceType c = LOW_COUNTER \<longrightarrow> created c))"
proof -
  let ?h = "js_sort (\<lambda>a b. arrivalTime a - arrivalTime b) cs"
  let ?qh = "lineRefs HIGH_COUNTER ?h"
  let ?ql = "lineRefs LOW_COUNTER ?h"
  from pe obtain s1 s2 where
    s1: "simulateQueue ?qh (replicate (nat (count_c (highCounter cfg))) 0) ?h evs = Inr s1"
    and s2: "simulateQueue (lineRefs LOW_COUNTER (heap s1))
               (replicate (nat (count_c (lowCounter cfg))) 0) (heap s1) (log_events s1) = Inr s2"
    and out: "cs' = heap s2"
    by (rule processEvents_Inr)
  have len: "length ?h = length cs" by (simp add: length_js_sort)
  have st1: "inv_store ?h ?qh s1" by (rule simulateQueue_store [OF s1])
  have len1: "length (heap s1) = length ?h" using st1 by (simp add: inv_store_def)
  have ql: "lineRefs LOW_COUNTER (heap s1) = ?ql"
    using len1 inv_store_serviceType [OF st1] by (intro lineRefs_cong) simp_all
  have st2: "inv_store (heap s1) ?ql s2"
    using simulateQueue_store [OF s2] by (simp add: ql)
  have len2: "length (heap s2) = length ?h" using st2 len1 by (simp add: inv_store_def)
  have crh: "created (?h ! x)" if "x < length ?h" for x
    using created_nth_js_sort [OF cr] that len by simp
  have high: "created c" if z: "count_c (highCounter cfg) = 0"
    and c: "c \<in> set (heap s2)" "serviceType c = HIGH_COUNTER" for c
  proof -
    from c(1) obtain x where x: "x < length ?h" "c = heap s2 ! x"
      using len2 by (auto simp: in_set_conv_nth)
    from s1 z have h1: "heap s1 = ?h" using simulateQueue_no_servers by simp
    from inv_store_serviceType [OF st2] x len1 c(2) h1
    have "serviceType (?h ! x) = HIGH_COUNTER" by simp
    with x have "x \<notin> set ?ql" by (simp add: set_lineRefs)
    with st2 x len1 h1 have "heap s2 ! x = ?h ! x" by (auto simp: inv_store_def)
    with crh [OF x(1)] x show ?thesis by simp
  qed
  have low: "created c" if z: "count_c (lowCounter cfg) = 0"
    and c: "c \<in> set (heap s2)" "serviceType c = LOW_COUNTER" for c
  proof -
    from c(1) obtain x where x: "x < length ?h" "c = heap s2 ! x"
      using len2 by (auto simp: in_set_conv_nth)
    from s2 z have h2: "heap s2 = heap s1" using simulateQueue_no_servers by simp
    from inv_store_serviceType [OF st1 x(1)] x c(2) h2
    have "serviceType (?h ! x) = LOW_COUNTER" by simp
    with x have "x \<notin> set ?qh" by (simp add: set_lineRefs)
    with st1 x h2 have "heap s2 ! x = ?h ! x" by (auto simp: inv_store_def)
    with crh [OF x(1)] x show ?thesis by simp
  qed
  from len len2 out high low show ?thesis by simp
qed

lemma randomTriangular_degenerate: "randomTriangular u m m m = Some m"
  by (simp add: randomTriangular_def js_div_def js_sqrt_def)

lemma randomExponential_zero_rate:
  "randomExponential 0 0 = NaN" "0 < u \<Longrightarrow> u < 1 \<Longrightarrow> randomExponential u 0 = PosInf"
  by (simp_all add: randomExponential_def js_div_def ln_less_zero)

text \<open>
  C6, as amended. The simulator has no validation and no configuration error.
  Whenever the generator returns a population and both server counts are array
  lengths, the run returns a result that holds the whole population; a line with
  zero servers is accepted, and the customers routed to it stay unserved, with
  null start, end and server. Distribution parameters are not checked either: a
  triangular distribution with min = max = mode yields that value for every draw,
  and the exponential generator at rate 0 yields NaN for the draw 0.
\<close>

theorem no_configuration_error:
  assumes "generateArrivals cfg us = Inr (cs, evs)"
    and "0 \<le> count_c (highCounter cfg)" and "count_c (highCounter cfg) < 2 ^ 32"
    and "0 \<le> count_c (lowCounter cfg)" and "count_c (lowCounter cfg) < 2 ^ 32"
  shows "(\<exists>result. run cfg us = Inr result \<and> length (customers result) = length cs \<and>
            (count_c (highCounter cfg) = 0 \<longrightarrow>
               (\<forall>c \<in> set (customers result). serviceType c = HIGH_COUNTER \<longrightarrow>
                  serviceStartTime c = None \<and> serviceEndTime c = None \<and> tellerId c = None)) \<and>
            (count_c (lowCounter cfg) = 0 \<longrightarrow>
               (\<forall>c \<in> set (customers result). serviceType c = LOW_COUNTER \<longrightarrow>
                  serviceStartTime c = None \<and> serviceEndTime c = None \<and> tellerId c = None))) \<and>
         (\<forall>u m. randomTriangular u m m m = Some m) \<and>
         randomExponential 0 0 = NaN"
proof -
  from processEvents_returns [OF assms(2-5)] obtain out where
    "processEvents cfg cs evs = Inr out" by blast
  then obtain cs' evs' where pe: "processEvents cfg cs evs = Inr (cs', evs')"
    by (cases out) simp
  let ?r = "\<lparr>customers = cs', events = evs', config = cfg\<rparr>"
  have run: "run cfg us = Inr ?r" by (simp add: run_def assms(1) pe)
  from generateArrivals_created [OF assms(1)] have cr: "\<forall>c \<in> set cs. created c" by simp
  from processEvents_no_servers [OF pe cr]
  have "length (customers ?r) = length cs \<and>
        (count_c (highCounter cfg) = 0 \<longrightarrow>
           (\<forall>c \<in> set (customers ?r). serviceType c = HIGH_COUNTER \<longrightarrow>
              serviceStartTime c = None \<and> serviceEndTime c = None \<and> tellerId c = None)) \<and>
        (count_c (lowCounter cfg) = 0 \<longrightarrow>
           (\<forall>c \<in> set (customers ?r). serviceType c = LOW_COUNTER \<longrightarrow>
              serviceStartTime c = None \<and> serviceEndTime c = None \<and> tellerId c = None))"
    unfolding created_def by simp
  with run have "\<exists>result. run cfg us = Inr result \<and> length (customers result) = length cs \<and>
            (count_c (highCounter cfg) = 0 \<longrightarrow>
               (\<forall>c \<in> set (customers result). serviceType c = HIGH_COUNTER \<longrightarrow>
                  serviceStartTime c = None \<and> serviceEndTime c = None \<and> tellerId c = None)) \<and>
            (count_c (lowCounter cfg) = 0 \<longrightarrow>
               (\<forall>c \<in> set (customers result). serviceType c = LOW_COUNTER \<longrightarrow>
                  serviceStartTime c = None \<and> serviceEndTime c = None \<and> tellerId c = None))"
    by blast
  with randomTriangular_degenerate randomExponential_zero_rate(1) show ?thesis by blast
qed

text \<open>The example configuration without servers at the low counter, and its run.\<close>

definition zero_server_config :: SimulationConfig where
  "zero_server_config =
     example_config\<lparr>lowCounter := \<lparr>count_c = 0, serviceMin = 10, serviceMode = 15, serviceMax = 25\<rparr>\<rparr>"

definition zero_server_result :: SimulationResult where
  "zero_server_result =
     \<lparr>customers = [example_created], events = example_arrival_log, config = zero_server_config\<rparr>"

lemma zero_server_generateArrivals:
  "generateArrivals zero_server_config example_draws = Inr ([example_created], example_arrival_log)"
  using ln_10_gt_1
  by (simp add: generateArrivals_def zero_server_config_def example_config_def example_draws_def
        randomExponential_def js_div_def randomTriangular_def js_sqrt_def
        example_created_def example_arrival_log_def ln_div)

lemma zero_server_processEvents:
  "processEvents zero_server_config [example_created] example_arrival_log =
     Inr ([example_created], example_arrival_log)"
  by code_simp

lemma zero_server_run: "run zero_server_config example_draws = Inr zero_server_result"
  by (simp add: run_def zero_server_generateArrivals zero_server_processEvents
        zero_server_result_def)

theorem no_configuration_error_witness:
  "generateArrivals zero_server_config example_draws = Inr ([example_created], example_arrival_log) \<and>
   count_c (lowCounter zero_server_config) = 0 \<and>
   run zero_server_config example_draws = Inr zero_server_result \<and>
   serviceType (hd (customers zero_server_result)) = LOW_COUNTER \<and>
   serviceStartTime (hd (customers zero_server_result)) = None"
proof -
  have v: "0 \<le> count_c (highCounter zero_server_config)"
    "count_c (highCounter zero_server_config) < 2 ^ 32"
    "0 \<le> count_c (lowCounter zero_server_config)"
    "count_c (lowCounter zero_server_config) < 2 ^ 32"
    and z: "count_c (lowCounter zero_server_config) = 0"
    by (simp_all add: zero_server_config_def example_config_def)
  from no_configuration_error [OF zero_server_generateArrivals v] z zero_server_run
  have "\<forall>c \<in> set (customers zero_server_result). serviceType c = LOW_COUNTER \<longrightarrow>
          serviceStartTime c = None \<and> serviceEndTime c = None \<and> tellerId c = None"
    by auto
  moreover have "hd (customers zero_server_result) \<in> set (customers zero_server_result)"
    "serviceType (hd (customers zero_server_result)) = LOW_COUNTER"
    by (simp_all add: zero_server_result_def example_created_def)
  ultimately show ?thesis
    using zero_server_generateArrivals z zero_server_run by blast
qed

text \<open>
  The claim as stated fails on the example configuration with no server at the low
  counter, to which 40 percent of the traffic is routed: the run returns, with the
  customer of the low counter created and never served; and the generators return
  NaN and a degenerate sample on invalid parameters.
\<close>

theorem zero_server_counterexample:
  "count_c (lowCounter zero_server_config) = 0 \<and>
   percentHighCounterTasks zero_server_config = 60 \<and>
   run zero_server_config example_draws = Inr zero_server_result \<and>
   customers zero_server_result = [example_created] \<and>
   serviceType example_created = LOW_COUNTER \<and>
   randomExponential 0 0 = NaN \<and>
   randomTriangular (1 / 2) 5 5 5 = Some 5"
  using zero_server_run
  by (simp add: zero_server_config_def example_config_def zero_server_result_def
        example_created_def randomTriangular_degenerate randomExponential_zero_rate(1))


section \<open>Runs without near ties\<close>

text \<open>
  A property that every iteration preserves, as long as the states of the run
  satisfy a side condition \<open>G\<close>, holds in every state of the run.
\<close>

lemma loop_states_invariant:
  assumes "I s" and "\<forall>x \<in> set (loop_states qc s). G x"
    and "\<And>s s'. I s \<Longrightarrow> G s \<Longrightarrow> pq s \<noteq> [] \<Longrightarrow> step qc s = Inr s' \<Longrightarrow> I s'"
  shows "\<forall>x \<in> set (loop_states qc s). I x"
  using assms
proof (induction qc s rule: loop_states.induct)
  case (1 qc s)
  show ?case
  proof (cases "pq s = []")
    case True
    with "1.prems"(1) show ?thesis by (subst loop_states.simps) simp
  next
    case False
    show ?thesis
    proof (cases "step qc s")
      case (Inl e)
      with False "1.prems"(1) show ?thesis by (subst loop_states.simps) simp
    next
      case (Inr s1)
      have ls: "loop_states qc s = s # loop_states qc s1"
        using False Inr by (subst loop_states.simps) simp
      with "1.prems"(2) have g: "G s" "\<forall>x \<in> set (loop_states qc s1). G x" by simp_all
      have "I s1" using "1.prems"(1) g(1) False Inr by (rule "1.prems"(3))
      have "\<forall>x \<in> set (loop_states qc s1). I x"
        by (rule "1.IH" [OF False Inr \<open>I s1\<close> g(2)]) (rule "1.prems"(3))
      with "1.prems"(1) ls show ?thesis by simp
    qed
  qed
qed

lemma loop_result_in_states:
  assumes "simulateQueue_loop qc s = Inr s'"
  shows "s' \<in> set (loop_states qc s)"
  using assms
proof (induction qc s rule: loop_states.induct)
  case (1 qc s)
  show ?case
  proof (cases "pq s = []")
    case True
    with "1.prems" show ?thesis
      by (subst loop_states.simps) (simp add: simulateQueue_loop.simps)
  next
    case False
    show ?thesis
    proof (cases "step qc s")
      case (Inl e)
      with False "1.prems" show ?thesis by (simp add: simulateQueue_loop.simps)
    next
      case (Inr s1)
      with False "1.prems" have "simulateQueue_loop qc s1 = Inr s'"
        by (simp add: simulateQueue_loop.simps)
      from "1.IH" [OF False Inr this] False Inr show ?thesis
        by (subst loop_states.simps) simp
    qed
  qed
qed

text \<open>
  Every pending teller-free event names a position of the free-at array, in every
  state of every run: the write of \<open>assignService\<close> to that array is always in range.
\<close>

definition inv_idx :: "qstate \<Rightarrow> bool" where
  "inv_idx s =
     (\<forall>e \<in> set (pq s). is_TELLER_FREE e \<longrightarrow> tellerIndex e < length (tellersFreeAt s))"

lemma inv_idx_step:
  assumes "inv_idx s" and "step qc s = Inr s'"
  shows "inv_idx s'"
  using assms(2)
proof (cases rule: step_Inr_cases)
  case (assign_arrival t k rest r i)
  from assign_arrival(3) have "i < length (tellersFreeAt s)" by (simp add: findIndex_Some)
  with js_sort_Cons_set [OF assign_arrival(1)] assms(1) show ?thesis
    unfolding assign_arrival(4) inv_idx_def by (auto simp: assignService_fields)
next
  case (enqueue t k rest r)
  with js_sort_Cons_set [OF enqueue(1)] assms(1) show ?thesis
    by (auto simp: inv_idx_def)
next
  case (idle t i rest)
  with js_sort_Cons_set [OF idle(1)] assms(1) show ?thesis
    by (auto simp: inv_idx_def)
next
  case (assign_waiting t i rest r wb)
  from js_sort_Cons_set [OF assign_waiting(1)] assms(1)
  have "i < length (tellersFreeAt s)" by (auto simp: inv_idx_def)
  with js_sort_Cons_set [OF assign_waiting(1)] assms(1) show ?thesis
    unfolding assign_waiting(3) inv_idx_def by (auto simp: assignService_fields)
qed

lemma teller_index_in_range:
  "\<forall>s \<in> set (loop_states qc (initialQueue qc tellers h evs)). inv_idx s"
proof (rule loop_states_invariant [where I = inv_idx and G = "\<lambda>s. True"])
  show "inv_idx (initialQueue qc tellers h evs)"
    by (auto simp: inv_idx_def initialQueue_fields)
qed (simp_all add: inv_idx_step)

text \<open>
  The customers of a line at the start of the engine: distinct customers of the
  store, as created, with service durations that are not negative.
\<close>

definition fresh_line :: "Customer list \<Rightarrow> nat list \<Rightarrow> bool" where
  "fresh_line h qc =
     (distinct (map (\<lambda>r. cid (h ! r)) qc) \<and>
      (\<forall>r \<in> set qc. r < length h \<and> created (h ! r) \<and> 0 \<le> serviceTime (h ! r)))"

text \<open>
  No near ties in a run: at every iteration, any two pending timestamps are equal
  or at least the tolerance of the comparator apart.
\<close>

definition tie_free :: "nat list \<Rightarrow> qstate \<Rightarrow> bool" where
  "tie_free qc s0 = (\<forall>s \<in> set (loop_states qc s0). separated (pq s))"

text \<open>
  Times: a pending arrival carries the arrival time of its customer, no waiting
  customer has arrived after a pending event, and no start is before the arrival.
\<close>

definition inv_times :: "Customer list \<Rightarrow> nat list \<Rightarrow> qstate \<Rightarrow> bool" where
  "inv_times h0 qc s =
     ((\<forall>e \<in> set (pq s). is_ARRIVAL e \<longrightarrow>
         (\<forall>r \<in> set qc. cid (h0 ! r) = customerId e \<longrightarrow> arrivalTime (h0 ! r) = time e)) \<and>
      (\<forall>r \<in> set (waitingBuffer s). \<forall>e \<in> set (pq s). arrivalTime (h0 ! r) \<le> time e) \<and>
      (\<forall>r \<in> set qc. \<forall>t. serviceStartTime (heap s ! r) = Some t \<longrightarrow> arrivalTime (h0 ! r) \<le> t))"

lemma inv_store_serviceTime:
  assumes "inv_store h0 qc s" and "x < length h0"
  shows "serviceTime (heap s ! x) = serviceTime (h0 ! x)"
  using assms by (auto simp: inv_store_def served_fields)

lemma inv_times_assign:
  assumes fl: "fresh_line h0 qc" and st: "inv_store h0 qc s" and tm: "inv_times h0 qc s"
    and ev: "ev \<in> set (pq s)" "time ev = t" "set (pq s) = insert ev (set rest)"
    and r: "r \<in> set qc" "arrivalTime (h0 ! r) \<le> t"
    and wb: "set wb \<subseteq> set (waitingBuffer s)"
  shows "inv_times h0 qc (assignService r i t (s\<lparr>pq := rest, waitingBuffer := wb\<rparr>))"
proof -
  let ?s1 = "s\<lparr>pq := rest, waitingBuffer := wb\<rparr>"
  note t = tm [unfolded inv_times_def]
  have rl: "r < length h0" "0 \<le> serviceTime (h0 ! r)" using fl r(1) by (auto simp: fresh_line_def)
  have svc: "0 \<le> serviceTime (heap s ! r)" using inv_store_serviceTime [OF st rl(1)] rl(2) by simp
  have len: "length (heap s) = length h0" using st by (simp add: inv_store_def)
  have a: "\<forall>e \<in> set rest. is_ARRIVAL e \<longrightarrow>
         (\<forall>r \<in> set qc. cid (h0 ! r) = customerId e \<longrightarrow> arrivalTime (h0 ! r) = time e)"
    using t ev(3) by simp
  have b: "\<forall>r' \<in> set wb. \<forall>e \<in> set rest. arrivalTime (h0 ! r') \<le> time e"
    using t ev(3) wb by auto
  have c: "\<forall>r' \<in> set wb. arrivalTime (h0 ! r') \<le> t + serviceTime (heap s ! r)"
  proof
    fix r' assume "r' \<in> set wb"
    with wb t ev(1,2) have "arrivalTime (h0 ! r') \<le> t" by auto
    with svc show "arrivalTime (h0 ! r') \<le> t + serviceTime (heap s ! r)" by simp
  qed
  have d: "arrivalTime (h0 ! x) \<le> u"
    if "x \<in> set qc" "serviceStartTime (heap (assignService r i t ?s1) ! x) = Some u" for x u
  proof (cases "x = r")
    case True
    with that(2) rl(1) len have "u = t" by (simp add: nth_heap_assignService served_fields)
    with True r(2) show ?thesis by simp
  next
    case False
    with that t show ?thesis by (simp add: nth_heap_assignService)
  qed
  show ?thesis
    unfolding inv_times_def using a b c d
    by (auto simp: assignService_fields)
qed

lemma inv_times_step:
  assumes fl: "fresh_line h0 qc" and st: "inv_store h0 qc s" and tm: "inv_times h0 qc s"
    and sep: "separated (pq s)" and step: "step qc s = Inr s'"
  shows "inv_times h0 qc s'"
proof -
  have cid: "cid (heap s ! x) = cid (h0 ! x)" for x using st by (simp add: inv_store_def)
  note t = tm [unfolded inv_times_def]
  from step show ?thesis
  proof (cases rule: step_Inr_cases)
    case (assign_arrival t k rest r i)
    note pqs = js_sort_Cons_set [OF assign_arrival(1)]
    from find_Some_set [OF assign_arrival(2)] have r: "r \<in> set qc" "cid (h0 ! r) = k"
      by (simp_all add: cid)
    with t pqs have "arrivalTime (h0 ! r) = t" by auto
    then have "inv_times h0 qc
        (assignService r i t (s\<lparr>pq := rest, waitingBuffer := waitingBuffer s\<rparr>))"
      using pqs r(1) by (intro inv_times_assign [OF fl st tm, of "ARRIVAL t k"]) simp_all
    then show ?thesis unfolding assign_arrival(4) by simp
  next
    case (enqueue t k rest r)
    note pqs = js_sort_Cons_set [OF enqueue(1)]
    from find_Some_set [OF enqueue(2)] have r: "r \<in> set qc" "cid (h0 ! r) = k"
      by (simp_all add: cid)
    with t pqs have arr: "arrivalTime (h0 ! r) = t" by auto
    have "\<forall>e \<in> set rest. t \<le> time e"
      using js_sort_head_least [OF sep enqueue(1)] pqs
      by (auto simp: before_eq_def)
    with arr t pqs show ?thesis
      unfolding inv_times_def enqueue(4) by auto
  next
    case (idle t i rest)
    note pqs = js_sort_Cons_set [OF idle(1)]
    with t show ?thesis unfolding inv_times_def idle(3) by auto
  next
    case (assign_waiting t i rest r wb)
    note pqs = js_sort_Cons_set [OF assign_waiting(1)]
    note pop = popNextCustomer_set(1) [OF assign_waiting(2)]
    from pop st have r: "r \<in> set qc" "r \<in> set (waitingBuffer s)"
      by (auto simp: inv_store_def)
    with t pqs have "arrivalTime (h0 ! r) \<le> t" by auto
    then show ?thesis
      unfolding assign_waiting(3)
      using pqs r(1) pop by (intro inv_times_assign [OF fl st tm, of "TELLER_FREE t i"]) auto
  qed
qed

lemma inv_times_initialQueue:
  assumes "fresh_line h qc"
  shows "inv_times h qc (initialQueue qc tellers h evs)"
proof -
  have inj: "inj_on (\<lambda>r. cid (h ! r)) (set qc)"
    using assms by (simp add: fresh_line_def distinct_map)
  have fresh: "\<forall>r \<in> set qc. serviceStartTime (h ! r) = None"
    using assms by (simp add: fresh_line_def created_def)
  have "arrivalTime (h ! r) = time e"
    if "e \<in> set (pq (initialQueue qc tellers h evs))" "r \<in> set qc" "cid (h ! r) = customerId e"
    for e r
  proof -
    from that(1) obtain r' where r': "r' \<in> set qc" "e = ARRIVAL (arrivalTime (h ! r')) (cid (h ! r'))"
      by (auto simp: initialQueue_fields)
    with that(2,3) inj have "r = r'" by (auto dest: inj_onD)
    with r' show ?thesis by simp
  qed
  with fresh show ?thesis
    unfolding inv_times_def by (simp add: initialQueue_fields(1,3))
qed

lemma simulateQueue_tie_free_invariant:
  assumes "tie_free qc (initialQueue qc tellers h evs)"
    and "simulateQueue qc tellers h evs = Inr s'"
    and "I (initialQueue qc tellers h evs)"
    and "\<And>s s'. I s \<Longrightarrow> separated (pq s) \<Longrightarrow> pq s \<noteq> [] \<Longrightarrow> step qc s = Inr s' \<Longrightarrow> I s'"
  shows "I s'"
proof -
  have "\<forall>x \<in> set (loop_states qc (initialQueue qc tellers h evs)). I x"
    using assms(3) assms(1) [unfolded tie_free_def] assms(4)
    by (rule loop_states_invariant)
  with loop_result_in_states [OF assms(2) [unfolded simulateQueue_def]] show ?thesis by blast
qed

text \<open>
  Part of C3. After a run of the engine of a line whose customers were as
  created, every customer of the line with a start time \<open>t\<close> has wait
  \<open>= t - arrival\<close>, end \<open>= t + serviceDuration\<close>, and the sentiment Happy if wait \<open>\<le> 5\<close>,
  Neutral if \<open>5 < wait \<le> 15\<close>, Angry if wait \<open>> 15\<close>. The wait is not negative provided
  that the customers are distinct, no service duration is negative, and any two
  pending timestamps of the run are always equal or at least 0.0001 apart.
\<close>

theorem wait_end_sentiment:
  assumes cr: "\<forall>r \<in> set qc. r < length h \<and> created (h ! r)"
    and run: "simulateQueue qc tellers h evs = Inr s'"
    and r: "r \<in> set qc" and start: "serviceStartTime (heap s' ! r) = Some t"
  shows "waitTime (heap s' ! r) = t - arrivalTime (heap s' ! r) \<and>
         serviceEndTime (heap s' ! r) = Some (t + serviceTime (heap s' ! r)) \<and>
         sentiment (heap s' ! r) =
           (if waitTime (heap s' ! r) \<le> 5 then HAPPY
            else if waitTime (heap s' ! r) \<le> 15 then NEUTRAL else ANGRY) \<and>
         (fresh_line h qc \<and> tie_free qc (initialQueue qc tellers h evs)
            \<longrightarrow> 0 \<le> waitTime (heap s' ! r))"
proof -
  from cr r have rl: "r < length h" "serviceStartTime (h ! r) = None"
    by (auto simp: created_def)
  from simulateQueue_store [OF run] rl(1)
  have "heap s' ! r = h ! r \<or> (\<exists>i u. heap s' ! r = served (h ! r) i u)"
    by (auto simp: inv_store_def)
  with start rl(2) obtain i u where sv: "heap s' ! r = served (h ! r) i u" by auto
  with start have u: "u = t" by (simp add: served_fields)
  have eqs: "waitTime (heap s' ! r) = t - arrivalTime (heap s' ! r) \<and>
         serviceEndTime (heap s' ! r) = Some (t + serviceTime (heap s' ! r)) \<and>
         sentiment (heap s' ! r) =
           (if waitTime (heap s' ! r) \<le> 5 then HAPPY
            else if waitTime (heap s' ! r) \<le> 15 then NEUTRAL else ANGRY)"
    using sv u by (simp add: served_def)
  have "0 \<le> waitTime (heap s' ! r)"
    if fl: "fresh_line h qc" and tf: "tie_free qc (initialQueue qc tellers h evs)"
  proof -
    have inv: "inv_store h qc s' \<and> inv_times h qc s'"
    proof (rule simulateQueue_tie_free_invariant [OF tf run,
             where I = "\<lambda>s. inv_store h qc s \<and> inv_times h qc s"])
      show "inv_store h qc (initialQueue qc tellers h evs) \<and>
            inv_times h qc (initialQueue qc tellers h evs)"
        using inv_store_initialQueue inv_times_initialQueue [OF fl] by simp
    next
      fix s s1
      assume "inv_store h qc s \<and> inv_times h qc s" "separated (pq s)" "step qc s = Inr s1"
      then show "inv_store h qc s1 \<and> inv_times h qc s1"
        using inv_store_step inv_times_step [OF fl] by blast
    qed
    with r start have "arrivalTime (h ! r) \<le> t" by (auto simp: inv_times_def)
    with sv u show ?thesis by (simp add: served_def)
  qed
  with eqs show ?thesis by blast
qed

text \<open>
  Servers: a pending teller-free event carries the free-at time of its server, no
  server has two of them, the end time of an assigned customer is at most the
  free-at time of its server, and the services of one server do not overlap.
\<close>

definition non_overlap :: "Customer \<Rightarrow> Customer \<Rightarrow> bool" where
  "non_overlap c1 c2 =
     (\<forall>i t1 e1 t2 e2.
        tellerId c1 = Some i \<and> tellerId c2 = Some i \<and>
        serviceStartTime c1 = Some t1 \<and> serviceEndTime c1 = Some e1 \<and>
        serviceStartTime c2 = Some t2 \<and> serviceEndTime c2 = Some e2
        \<longrightarrow> e1 \<le> t2 \<or> e2 \<le> t1)"

definition tf_idx :: "QueueEvent list \<Rightarrow> nat list" where
  "tf_idx es = map tellerIndex (filter is_TELLER_FREE es)"

definition inv_tellers :: "nat list \<Rightarrow> qstate \<Rightarrow> bool" where
  "inv_tellers qc s =
     ((\<forall>e \<in> set (pq s). is_TELLER_FREE e \<longrightarrow>
         tellerIndex e < length (tellersFreeAt s) \<and> tellersFreeAt s ! tellerIndex e = time e) \<and>
      distinct (tf_idx (pq s)) \<and>
      (\<forall>r \<in> set qc. \<forall>i e. tellerId (heap s ! r) = Some i \<longrightarrow>
         serviceEndTime (heap s ! r) = Some e \<longrightarrow>
         i < length (tellersFreeAt s) \<and> e \<le> tellersFreeAt s ! i) \<and>
      (\<forall>r1 \<in> set qc. \<forall>r2 \<in> set qc. r1 \<noteq> r2 \<longrightarrow> non_overlap (heap s ! r1) (heap s ! r2)))"

lemma tf_idx_simps:
  "tf_idx [] = []"
  "tf_idx (ARRIVAL t k # es) = tf_idx es"
  "tf_idx (TELLER_FREE t i # es) = i # tf_idx es"
  "tf_idx (es @ [TELLER_FREE t i]) = tf_idx es @ [i]"
  by (simp_all add: tf_idx_def)

lemma tf_idx_sorted:
  assumes "js_sort cmp es = ev # rest"
  shows "distinct (tf_idx es) \<longleftrightarrow> distinct (tf_idx (ev # rest))"
proof -
  have "mset (tf_idx (js_sort cmp es)) = mset (tf_idx es)"
    by (simp add: tf_idx_def mset_js_sort)
  with assms have "mset (tf_idx es) = mset (tf_idx (ev # rest))" by simp
  then show ?thesis by (rule mset_eq_imp_distinct_iff)
qed

lemma tf_idx_member: "i \<in> set (tf_idx es) \<longleftrightarrow> (\<exists>e \<in> set es. is_TELLER_FREE e \<and> tellerIndex e = i)"
  by (auto simp: tf_idx_def)

text \<open>No free-at time of a server goes down from one state to the next.\<close>

definition free_at_le :: "qstate \<Rightarrow> qstate \<Rightarrow> bool" where
  "free_at_le s s' =
     (length (tellersFreeAt s') = length (tellersFreeAt s) \<and>
      (\<forall>i<length (tellersFreeAt s). tellersFreeAt s ! i \<le> tellersFreeAt s' ! i))"

lemma free_at_le_refl: "free_at_le s s"
  by (simp add: free_at_le_def)

lemma free_at_le_trans: "free_at_le a b \<Longrightarrow> free_at_le b c \<Longrightarrow> free_at_le a c"
  unfolding free_at_le_def by (metis order_trans)

lemma inv_tellers_assign:
  assumes tl: "inv_tellers qc s"
    and sub: "set rest \<subseteq> set (pq s)" "distinct (tf_idx rest)" "i \<notin> set (tf_idx rest)"
    and i: "i < length (tellersFreeAt s)" "tellersFreeAt s ! i \<le> t"
    and r: "r < length (heap s)" "0 \<le> serviceTime (heap s ! r)"
  shows "inv_tellers qc (assignService r i t (s\<lparr>pq := rest, waitingBuffer := wb\<rparr>)) \<and>
         free_at_le s (assignService r i t (s\<lparr>pq := rest, waitingBuffer := wb\<rparr>))"
proof -
  let ?s1 = "s\<lparr>pq := rest, waitingBuffer := wb\<rparr>"
  let ?s' = "assignService r i t ?s1"
  let ?e = "t + serviceTime (heap s ! r)"
  note t = tl [unfolded inv_tellers_def]
  have fa: "tellersFreeAt ?s' = (tellersFreeAt s)[i := ?e]" by (simp add: assignService_fields)
  have hp: "heap ?s' ! x = (if x = r then served (heap s ! r) i t else heap s ! x)" for x
    using r(1) by (simp add: nth_heap_assignService)
  have mono: "free_at_le s ?s'"
    unfolding free_at_le_def fa using i r(2) by (auto simp: nth_list_update)
  have f1: "tellerIndex e < length (tellersFreeAt ?s') \<and>
            tellersFreeAt ?s' ! tellerIndex e = time e"
    if "e \<in> set (pq ?s')" "is_TELLER_FREE e" for e
  proof (cases "e \<in> set rest")
    case True
    with that(2) sub(3) have "tellerIndex e \<noteq> i" by (auto simp: tf_idx_member)
    with True sub(1) t that(2) show ?thesis unfolding fa by auto
  next
    case False
    with that(1) have "e = TELLER_FREE ?e i" by (simp add: assignService_fields)
    with i(1) show ?thesis unfolding fa by simp
  qed
  have f2: "distinct (tf_idx (pq ?s'))"
    using sub(2,3) by (simp add: assignService_fields tf_idx_simps)
  have f3: "j < length (tellersFreeAt ?s') \<and> e \<le> tellersFreeAt ?s' ! j"
    if "x \<in> set qc" "tellerId (heap ?s' ! x) = Some j" "serviceEndTime (heap ?s' ! x) = Some e"
    for x j e
  proof (cases "x = r")
    case True
    from that(2) True have "j = i" by (simp add: hp served_fields)
    moreover from that(3) True have "e = ?e" by (simp add: hp served_fields)
    ultimately show ?thesis using i(1) unfolding fa by simp
  next
    case False
    with that t have old: "j < length (tellersFreeAt s)" "e \<le> tellersFreeAt s ! j"
      by (auto simp: hp)
    show ?thesis
    proof (cases "j = i")
      case True
      with old i r(2) show ?thesis unfolding fa by simp
    next
      case False
      with old show ?thesis unfolding fa by simp
    qed
  qed
  have f4: "non_overlap (heap ?s' ! x) (heap ?s' ! y)"
    if xy: "x \<in> set qc" "y \<in> set qc" "x \<noteq> y" for x y
  proof -
    have key: "e2 \<le> t" if "z \<in> set qc" "z \<noteq> r" "tellerId (heap s ! z) = Some i"
      "serviceEndTime (heap s ! z) = Some e2" for z e2
      using t that i(2) by fastforce
    show ?thesis
    proof (cases "x = r")
      case True
      with xy have "y \<noteq> r" by simp
      with True key [OF xy(2)] show ?thesis
        unfolding non_overlap_def by (auto simp: hp served_fields)
    next
      case False
      show ?thesis
      proof (cases "y = r")
        case True
        with False key [OF xy(1)] show ?thesis
          unfolding non_overlap_def by (auto simp: hp served_fields)
      next
        case yr: False
        with False xy t show ?thesis by (simp add: hp)
      qed
    qed
  qed
  from f1 f2 f3 f4 mono show ?thesis unfolding inv_tellers_def by blast
qed

lemma inv_tellers_shrink:
  assumes tl: "inv_tellers qc s" and sub: "set rest \<subseteq> set (pq s)" "distinct (tf_idx rest)"
  shows "inv_tellers qc (s\<lparr>pq := rest, waitingBuffer := wb\<rparr>)"
  using assms unfolding inv_tellers_def by auto

lemma inv_tellers_step:
  assumes fl: "fresh_line h0 qc" and st: "inv_store h0 qc s" and tl: "inv_tellers qc s"
    and sep: "separated (pq s)" and step: "step qc s = Inr s'"
  shows "inv_tellers qc s' \<and> free_at_le s s'"
proof -
  note t = tl [unfolded inv_tellers_def]
  have len: "length (heap s) = length h0" using st by (simp add: inv_store_def)
  have ok: "r < length (heap s) \<and> 0 \<le> serviceTime (heap s ! r)" if "r \<in> set qc" for r
  proof -
    from fl that have "r < length h0" "0 \<le> serviceTime (h0 ! r)" by (auto simp: fresh_line_def)
    with inv_store_serviceTime [OF st this(1)] len show ?thesis by simp
  qed
  from step show ?thesis
  proof (cases rule: step_Inr_cases)
    case (assign_arrival t k rest r i)
    note pqs = js_sort_Cons_set [OF assign_arrival(1)]
    have d: "distinct (tf_idx rest)"
      using tf_idx_sorted [OF assign_arrival(1)] t by (simp add: tf_idx_simps)
    from assign_arrival(3) have i: "i < length (tellersFreeAt s)" "tellersFreeAt s ! i \<le> t"
      by (simp_all add: findIndex_Some)
    have ni: "i \<notin> set (tf_idx rest)"
    proof
      assume "i \<in> set (tf_idx rest)"
      then obtain e where e: "e \<in> set rest" "is_TELLER_FREE e" "tellerIndex e = i"
        by (auto simp: tf_idx_member)
      with t pqs have "tellersFreeAt s ! i = time e" by auto
      with i(2) have "time e \<le> t" by simp
      moreover from js_sort_head_least [OF sep assign_arrival(1)] e(1) pqs
      have "before_eq (ARRIVAL t k) e" by auto
      with e(2) have "t < time e" by (cases e) (auto simp: before_eq_def)
      ultimately show False by simp
    qed
    from find_Some_set [OF assign_arrival(2)] have "r \<in> set qc" by simp
    from ok [OF this] pqs d ni i
    have "inv_tellers qc (assignService r i t (s\<lparr>pq := rest, waitingBuffer := waitingBuffer s\<rparr>)) \<and>
          free_at_le s (assignService r i t (s\<lparr>pq := rest, waitingBuffer := waitingBuffer s\<rparr>))"
      by (intro inv_tellers_assign [OF tl]) auto
    then show ?thesis unfolding assign_arrival(4) by simp
  next
    case (enqueue t k rest r)
    note pqs = js_sort_Cons_set [OF enqueue(1)]
    have d: "distinct (tf_idx rest)"
      using tf_idx_sorted [OF enqueue(1)] t by (simp add: tf_idx_simps)
    from inv_tellers_shrink [OF tl _ d, of "waitingBuffer s @ [r]"] pqs
    show ?thesis unfolding enqueue(4) by (auto simp: free_at_le_def)
  next
    case (idle t i rest)
    note pqs = js_sort_Cons_set [OF idle(1)]
    have d: "distinct (tf_idx rest)"
      using tf_idx_sorted [OF idle(1)] t by (simp add: tf_idx_simps)
    from inv_tellers_shrink [OF tl _ d, of "waitingBuffer s"] pqs
    show ?thesis unfolding idle(3) by (auto simp: free_at_le_def)
  next
    case (assign_waiting t i rest r wb)
    note pqs = js_sort_Cons_set [OF assign_waiting(1)]
    have d: "distinct (tf_idx rest)" "i \<notin> set (tf_idx rest)"
      using tf_idx_sorted [OF assign_waiting(1)] t by (simp_all add: tf_idx_simps)
    from t pqs have i: "i < length (tellersFreeAt s)" "tellersFreeAt s ! i \<le> t" by auto
    from popNextCustomer_set(1) [OF assign_waiting(2)] st have "r \<in> set qc"
      by (auto simp: inv_store_def)
    from ok [OF this] pqs d i show ?thesis
      unfolding assign_waiting(3) by (intro inv_tellers_assign [OF tl]) auto
  qed
qed

lemma inv_tellers_initialQueue:
  assumes "fresh_line h qc"
  shows "inv_tellers qc (initialQueue qc tellers h evs)"
proof -
  have a: "\<forall>e \<in> set (pq (initialQueue qc tellers h evs)). is_ARRIVAL e"
    by (auto simp: initialQueue_fields)
  then have "filter is_TELLER_FREE (pq (initialQueue qc tellers h evs)) = []"
    by (auto simp: filter_empty_conv QueueEvent.disc_eq_case split: QueueEvent.splits)
  then have d: "tf_idx (pq (initialQueue qc tellers h evs)) = []" by (simp add: tf_idx_def)
  have none: "\<forall>r \<in> set qc. tellerId (h ! r) = None"
    using assms by (simp add: fresh_line_def created_def)
  from a have na: "\<forall>e \<in> set (pq (initialQueue qc tellers h evs)). \<not> is_TELLER_FREE e"
    by (auto simp: QueueEvent.disc_eq_case split: QueueEvent.splits)
  show ?thesis
    unfolding inv_tellers_def using na d none
    by (simp add: initialQueue_fields(3) non_overlap_def)
qed

lemma loop_states_Cons: "\<exists>rest. loop_states qc s = s # rest"
  by (subst loop_states.simps) (auto split: sum.splits)

lemma loop_states_sorted_wrt:
  assumes "I s" and "\<forall>x \<in> set (loop_states qc s). G x"
    and "\<And>s s'. I s \<Longrightarrow> G s \<Longrightarrow> pq s \<noteq> [] \<Longrightarrow> step qc s = Inr s' \<Longrightarrow> I s' \<and> R s s'"
    and "\<And>a b c. R a b \<Longrightarrow> R b c \<Longrightarrow> R a c"
  shows "sorted_wrt R (loop_states qc s)"
  using assms
proof (induction qc s rule: loop_states.induct)
  case (1 qc s)
  show ?case
  proof (cases "pq s = [] \<or> (\<exists>e. step qc s = Inl e)")
    case True
    then have "loop_states qc s = [s]" by (subst loop_states.simps) auto
    then show ?thesis by simp
  next
    case False
    then obtain s1 where ne: "pq s \<noteq> []" and s1: "step qc s = Inr s1"
      by (cases "step qc s") auto
    have ls: "loop_states qc s = s # loop_states qc s1"
      using ne s1 by (subst loop_states.simps) simp
    with "1.prems"(2) have g: "G s" "\<forall>x \<in> set (loop_states qc s1). G x" by simp_all
    have i1: "I s1 \<and> R s s1" using "1.prems"(1) g(1) ne s1 by (rule "1.prems"(3))
    then have "I s1" "R s s1" by simp_all
    have srt: "sorted_wrt R (loop_states qc s1)"
      by (rule "1.IH" [OF ne s1 \<open>I s1\<close> g(2)]) (fact "1.prems"(3), fact "1.prems"(4))
    obtain rest where r: "loop_states qc s1 = s1 # rest" using loop_states_Cons by blast
    have "R s y" if "y \<in> set (loop_states qc s1)" for y
    proof (cases "y = s1")
      case True
      with \<open>R s s1\<close> show ?thesis by simp
    next
      case False
      with that r srt have "R s1 y" by auto
      with \<open>R s s1\<close> show ?thesis by (rule "1.prems"(4))
    qed
    with srt ls show ?thesis by simp
  qed
qed

text \<open>
  Part of C4. For a line of distinct customers, as created and with service
  durations that are not negative, and a run of its engine in which any two pending
  timestamps are always equal or at least 0.0001 apart: the free-at time of every
  server never decreases from one iteration to the next, and the services of any
  two customers that end up on the same server do not overlap.
\<close>

theorem servers_never_overlap:
  assumes fl: "fresh_line h qc" and tf: "tie_free qc (initialQueue qc tellers h evs)"
    and run: "simulateQueue qc tellers h evs = Inr s'"
  shows "(\<forall>i<length tellers.
            sorted (map (\<lambda>s. tellersFreeAt s ! i)
                      (loop_states qc (initialQueue qc tellers h evs)))) \<and>
         (\<forall>r1 \<in> set qc. \<forall>r2 \<in> set qc. r1 \<noteq> r2 \<longrightarrow>
            non_overlap (heap s' ! r1) (heap s' ! r2))"
proof -
  let ?s0 = "initialQueue qc tellers h evs"
  let ?I = "\<lambda>s. inv_store h qc s \<and> inv_tellers qc s \<and> free_at_le ?s0 s"
  have i0: "?I ?s0"
    using inv_store_initialQueue inv_tellers_initialQueue [OF fl] free_at_le_refl by simp
  have pres: "?I s1 \<and> free_at_le s s1"
    if "?I s" "separated (pq s)" "pq s \<noteq> []" "step qc s = Inr s1" for s s1
  proof -
    from that inv_tellers_step [OF fl, of s s1]
    have "inv_tellers qc s1" "free_at_le s s1" by simp_all
    moreover from that inv_store_step have "inv_store h qc s1" by blast
    moreover from that \<open>free_at_le s s1\<close> have "free_at_le ?s0 s1" by (blast intro: free_at_le_trans)
    ultimately show ?thesis by simp
  qed
  have g: "\<forall>x \<in> set (loop_states qc ?s0). separated (pq x)" using tf by (simp add: tie_free_def)
  have all: "\<forall>x \<in> set (loop_states qc ?s0). ?I x"
    using i0 g
  proof (rule loop_states_invariant [where I = ?I and G = "\<lambda>s. separated (pq s)"])
    fix s s1 assume "?I s" "separated (pq s)" "pq s \<noteq> []" "step qc s = Inr s1"
    then show "?I s1" using pres by blast
  qed
  have srt: "sorted_wrt free_at_le (loop_states qc ?s0)"
    using i0 g
  proof (rule loop_states_sorted_wrt [where I = ?I and G = "\<lambda>s. separated (pq s)"])
    fix s s1 assume "?I s" "separated (pq s)" "pq s \<noteq> []" "step qc s = Inr s1"
    then show "?I s1 \<and> free_at_le s s1" by (rule pres)
  qed (rule free_at_le_trans)
  have len: "length (tellersFreeAt x) = length tellers" if "x \<in> set (loop_states qc ?s0)" for x
    using all that by (auto simp: free_at_le_def initialQueue_fields)
  have "sorted (map (\<lambda>s. tellersFreeAt s ! i) (loop_states qc ?s0))" if i: "i < length tellers" for i
  proof -
    have "sorted_wrt (\<lambda>a b. tellersFreeAt a ! i \<le> tellersFreeAt b ! i) (loop_states qc ?s0)"
    proof (rule sorted_wrt_mono_rel [OF _ srt])
      fix a b assume "a \<in> set (loop_states qc ?s0)" "free_at_le a b"
      with len i show "tellersFreeAt a ! i \<le> tellersFreeAt b ! i"
        by (simp add: free_at_le_def)
    qed
    then show ?thesis by (simp add: sorted_wrt_map)
  qed
  moreover have "s' \<in> set (loop_states qc ?s0)"
    using loop_result_in_states run by (simp add: simulateQueue_def)
  with all have "inv_tellers qc s'" by blast
  then have "\<forall>r1 \<in> set qc. \<forall>r2 \<in> set qc. r1 \<noteq> r2 \<longrightarrow>
            non_overlap (heap s' ! r1) (heap s' ! r2)"
    by (simp add: inv_tellers_def)
  ultimately show ?thesis by blast
qed

section \<open>A run without near ties, on a concrete line\<close>

text \<open>
  One server and three customers: a walk-in and a reserved customer arrive at 0,
  a walk-in customer at 2; the services last 10, 10 and 4.
\<close>

definition busy_line :: "Customer list" where
  "busy_line =
     [fresh_customer 1 WALK_IN HIGH_COUNTER 0 10,
      fresh_customer 2 RESERVED HIGH_COUNTER 0 10,
      fresh_customer 3 WALK_IN HIGH_COUNTER 2 4]"

lemma busy_line_fresh: "fresh_line busy_line [0, 1, 2]"
  by (simp add: fresh_line_def busy_line_def fresh_customer_def created_def)

lemma busy_line_tie_free: "tie_free [0, 1, 2] (initialQueue [0, 1, 2] [0] busy_line [])"
  unfolding tie_free_def by code_simp

theorem wait_end_sentiment_witness:
  "fresh_line busy_line [0, 1, 2] \<and>
   tie_free [0, 1, 2] (initialQueue [0, 1, 2] [0] busy_line []) \<and>
   (\<exists>s'. simulateQueue [0, 1, 2] [0] busy_line [] = Inr s' \<and>
      serviceStartTime (heap s' ! 2) = Some 20 \<and>
      waitTime (heap s' ! 2) = 20 - arrivalTime (heap s' ! 2) \<and>
      serviceEndTime (heap s' ! 2) = Some (20 + serviceTime (heap s' ! 2)) \<and>
      0 \<le> waitTime (heap s' ! 2)) \<and>
   map_sum id (\<lambda>s. map (\<lambda>c. (serviceStartTime c, waitTime c, sentiment c)) (heap s))
     (simulateQueue [0, 1, 2] [0] busy_line []) =
     Inr [(Some 0, 0, HAPPY), (Some 10, 10, NEUTRAL), (Some 20, 18, ANGRY)]"
proof -
  obtain s' where s': "simulateQueue [0, 1, 2] [0] busy_line [] = Inr s'"
    using simulateQueue_returns by blast
  have ev: "map_sum id (\<lambda>s. map (\<lambda>c. (serviceStartTime c, waitTime c, sentiment c)) (heap s))
     (simulateQueue [0, 1, 2] [0] busy_line []) =
     Inr [(Some 0, 0, HAPPY), (Some 10, 10, NEUTRAL), (Some 20, 18, ANGRY)]"
    by code_simp
  have "map_sum id (\<lambda>s. serviceStartTime (heap s ! 2))
          (simulateQueue [0, 1, 2] [0] busy_line []) = Inr (Some 20)"
    by code_simp
  with s' have st: "serviceStartTime (heap s' ! 2) = Some 20" by simp
  have r: "2 \<in> set [0, 1, 2 :: nat]" by simp
  have cr: "\<forall>r \<in> set [0, 1, 2]. r < length busy_line \<and> created (busy_line ! r)"
    using busy_line_fresh by (simp add: fresh_line_def busy_line_def)
  note th = wait_end_sentiment [OF cr s' r st]
  have nonneg: "0 \<le> waitTime (heap s' ! 2)"
    by (rule th [THEN conjunct2, THEN conjunct2, THEN conjunct2, THEN mp])
       (intro conjI busy_line_fresh busy_line_tie_free)
  have ex: "\<exists>s'. simulateQueue [0, 1, 2] [0] busy_line [] = Inr s' \<and>
      serviceStartTime (heap s' ! 2) = Some 20 \<and>
      waitTime (heap s' ! 2) = 20 - arrivalTime (heap s' ! 2) \<and>
      serviceEndTime (heap s' ! 2) = Some (20 + serviceTime (heap s' ! 2)) \<and>
      0 \<le> waitTime (heap s' ! 2)"
    by (rule exI [of _ s'])
       (intro conjI s' st th [THEN conjunct1] th [THEN conjunct2, THEN conjunct1] nonneg)
  show ?thesis by (intro conjI busy_line_fresh busy_line_tie_free ex ev)
qed

theorem servers_never_overlap_witness:
  "fresh_line busy_line [0, 1, 2] \<and>
   tie_free [0, 1, 2] (initialQueue [0, 1, 2] [0] busy_line []) \<and>
   (\<exists>s'. simulateQueue [0, 1, 2] [0] busy_line [] = Inr s' \<and>
      non_overlap (heap s' ! 0) (heap s' ! 2)) \<and>
   sorted (map (\<lambda>s. tellersFreeAt s ! 0)
             (loop_states [0, 1, 2] (initialQueue [0, 1, 2] [0] busy_line []))) \<and>
   map (\<lambda>s. tellersFreeAt s ! 0)
     (loop_states [0, 1, 2] (initialQueue [0, 1, 2] [0] busy_line [])) =
     [0, 10, 10, 10, 20, 24, 24] \<and>
   map_sum id (\<lambda>s. map (\<lambda>c. (tellerId c, serviceStartTime c, serviceEndTime c)) (heap s))
     (simulateQueue [0, 1, 2] [0] busy_line []) =
     Inr [(Some 0, Some 0, Some 10), (Some 0, Some 10, Some 20), (Some 0, Some 20, Some 24)]"
proof -
  obtain s' where s': "simulateQueue [0, 1, 2] [0] busy_line [] = Inr s'"
    using simulateQueue_returns by blast
  note th = servers_never_overlap [OF busy_line_fresh busy_line_tie_free s']
  have i: "0 < length [0 :: real]" by simp
  have a: "sorted (map (\<lambda>s. tellersFreeAt s ! 0)
             (loop_states [0, 1, 2] (initialQueue [0, 1, 2] [0] busy_line [])))"
    by (rule th [THEN conjunct1, rule_format, OF i])
  have r: "(0::nat) \<in> set [0, 1, 2]" "(2::nat) \<in> set [0, 1, 2]" "(0::nat) \<noteq> 2" by simp_all
  have b: "non_overlap (heap s' ! 0) (heap s' ! 2)"
    by (rule th [THEN conjunct2, rule_format, OF r])
  have ex: "\<exists>s'. simulateQueue [0, 1, 2] [0] busy_line [] = Inr s' \<and>
      non_overlap (heap s' ! 0) (heap s' ! 2)"
    by (rule exI [of _ s']) (intro conjI s' b)
  have c: "map (\<lambda>s. tellersFreeAt s ! 0)
     (loop_states [0, 1, 2] (initialQueue [0, 1, 2] [0] busy_line [])) =
     [0, 10, 10, 10, 20, 24, 24]"
    by code_simp
  have d: "map_sum id (\<lambda>s. map (\<lambda>c. (tellerId c, serviceStartTime c, serviceEndTime c)) (heap s))
     (simulateQueue [0, 1, 2] [0] busy_line []) =
     Inr [(Some 0, Some 0, Some 10), (Some 0, Some 10, Some 20), (Some 0, Some 20, Some 24)]"
    by code_simp
  show ?thesis by (intro conjI busy_line_fresh busy_line_tie_free ex a c d)
qed

end
